theory Spec2Isabelle
  imports Main "HOL-Library.AList" "HOL-Library.Multiset"
begin

section \<open>Data model of the Sudoku CSP engine (src/core/csp.py)\<close>

text \<open>
  Python exceptions that the engine can raise become values. A function that can raise
  returns \<open>error + 'a\<close> with \<open>Inl\<close> for the exception.
\<close>

datatype error = ValueError | IndexError | KeyError | ZeroDivisionError | TypeError

text \<open>
  A cell is a \<open>(row, col)\<close> tuple. A Python dict keyed by cells is an association list in
  insertion order: \<open>map_of\<close> is lookup, \<open>AList.update\<close> is item assignment (an existing
  key keeps its place, a new key goes last), \<open>AList.delete\<close> is \<open>del\<close>.
\<close>

type_synonym cell = "nat \<times> nat"
type_synonym domains = "(cell \<times> int list) list"
type_synonym assignment = "(cell \<times> int) list"
type_synonym board = "int list list"

text \<open>
  The fields that \<open>__init__\<close> sets once and nothing changes afterwards. The field
  \<open>self.size\<close> is \<open>size'\<close> here. The three counters of \<open>reset\<close> are the record
  \<open>stats\<close>, which the search threads through.
\<close>

record engine =
  size' :: nat
  box_size :: nat
  variables :: "cell list"
  initial_domains :: domains
  initial_board :: board

record stats =
  nodes :: nat
  backtracks :: nat
  solutions :: nat

text \<open>\<open>reset\<close>: all three counters to zero.\<close>

definition reset :: stats where
  "reset = \<lparr>nodes = 0, backtracks = 0, solutions = 0\<rparr>"

text \<open>
  \<open>int(np.sqrt(size))\<close> for a size that is not negative: the largest \<open>k\<close> with
  \<open>k * k \<le> size\<close> (the double-precision square root is exact enough for every size
  below \<open>2 ^ 52\<close>).
\<close>

primrec isqrt :: "nat \<Rightarrow> nat" where
  "isqrt 0 = 0"
| "isqrt (Suc n) = (let k = isqrt n in if (k + 1) * (k + 1) \<le> Suc n then k + 1 else k)"

text \<open>
  The test \<open>r == row or c == col or (r // box_size == row // box_size and
  c // box_size == col // box_size)\<close> of lines 69, 145, 169 and 204. Python evaluates
  \<open>or\<close> left to right and stops early, so the floor division by a zero box size raises
  only for two cells in different rows and different columns.
\<close>

definition shares_unit :: "nat \<Rightarrow> cell \<Rightarrow> cell \<Rightarrow> bool" where
  "shares_unit bs k k' =
     (fst k = fst k' \<or> snd k = snd k' \<or>
      (fst k div bs = fst k' div bs \<and> snd k div bs = snd k' div bs))"

definition same_unit :: "nat \<Rightarrow> cell \<Rightarrow> cell \<Rightarrow> error + bool" where
  "same_unit bs k k' =
     (if fst k = fst k' \<or> snd k = snd k' then Inr True
      else if bs = 0 then Inl ZeroDivisionError
      else Inr (fst k div bs = fst k' div bs \<and> snd k div bs = snd k' div bs))"

subsection \<open>Construction\<close>

text \<open>\<open>self.initial_board[r][c]\<close>, with the IndexError of a short grid or a short row.\<close>

definition board_at :: "board \<Rightarrow> nat \<Rightarrow> nat \<Rightarrow> error + int" where
  "board_at b r c =
     (if r < length b \<and> c < length (b ! r) then Inr (b ! r ! c) else Inl IndexError)"

text \<open>The cells in the order of \<open>for r in range(size): for c in range(size)\<close>.\<close>

definition cells :: "nat \<Rightarrow> cell list" where
  "cells n = concat (map (\<lambda>r. map (\<lambda>c. (r, c)) [0..<n]) [0..<n])"

text \<open>
  Lines 43 to 47: every cell holding 0 is appended to \<open>variables\<close> and gets the domain
  \<open>list(range(1, size + 1))\<close>.
\<close>

fun setup_variables ::
  "board \<Rightarrow> nat \<Rightarrow> cell list \<Rightarrow> cell list \<times> domains \<Rightarrow> error + (cell list \<times> domains)" where
  "setup_variables b n [] acc = Inr acc"
| "setup_variables b n ((r, c) # rest) (vars, doms) =
     (case board_at b r c of
        Inl e \<Rightarrow> Inl e
      | Inr x \<Rightarrow>
          if x = 0
          then setup_variables b n rest (vars @ [(r, c)], AList.update (r, c) [1..int n] doms)
          else setup_variables b n rest (vars, doms))"

text \<open>
  \<open>_remove_conflicts\<close>: for every key of the dict that shares a row, column or box with
  \<open>(row, col)\<close>, \<open>list.remove\<close> takes the first occurrence of the value out of its list.
\<close>

fun remove_conflicts :: "nat \<Rightarrow> cell \<Rightarrow> int \<Rightarrow> domains \<Rightarrow> error + domains" where
  "remove_conflicts bs rc v [] = Inr []"
| "remove_conflicts bs rc v ((k, d) # rest) =
     (case same_unit bs k rc of
        Inl e \<Rightarrow> Inl e
      | Inr b \<Rightarrow>
          (case remove_conflicts bs rc v rest of
             Inl e \<Rightarrow> Inl e
           | Inr rest' \<Rightarrow>
               Inr ((k, if b \<and> v \<in> set d then remove1 v d else d) # rest')))"

text \<open>Lines 50 to 54: every filled cell removes its value from the domains around it.\<close>

fun prune_initial :: "board \<Rightarrow> nat \<Rightarrow> cell list \<Rightarrow> domains \<Rightarrow> error + domains" where
  "prune_initial b bs [] doms = Inr doms"
| "prune_initial b bs ((r, c) # rest) doms =
     (case board_at b r c of
        Inl e \<Rightarrow> Inl e
      | Inr x \<Rightarrow>
          if x \<noteq> 0
          then (case remove_conflicts bs (r, c) x doms of
                  Inl e \<Rightarrow> Inl e
                | Inr doms' \<Rightarrow> prune_initial b bs rest doms')
          else prune_initial b bs rest doms)"

text \<open>
  \<open>SudokuCSP.__init__(size, initial_board)\<close>. A negative size makes \<open>np.sqrt\<close> return
  NaN, and \<open>int\<close> of NaN raises ValueError. No other test of the size is made. The board
  \<open>None\<close> stands for the grid of zeros; a given board is copied row by row.
\<close>

definition SudokuCSP_init :: "int \<Rightarrow> board option \<Rightarrow> error + (engine \<times> stats)" where
  "SudokuCSP_init sz initial =
     (if sz < 0 then Inl ValueError
      else
        let n = nat sz;
            bs = isqrt n;
            b = (case initial of
                   None \<Rightarrow> replicate n (replicate n 0)
                 | Some given \<Rightarrow> map (\<lambda>row. row) given)
        in case setup_variables b n (cells n) ([], []) of
             Inl e \<Rightarrow> Inl e
           | Inr (vars, doms) \<Rightarrow>
               (case prune_initial b bs (cells n) doms of
                  Inl e \<Rightarrow> Inl e
                | Inr doms' \<Rightarrow>
                    Inr (\<lparr>size' = n, box_size = bs, variables = vars,
                          initial_domains = doms', initial_board = b\<rparr>, reset)))"

subsection \<open>Consistency check\<close>

text \<open>
  \<open>is_consistent(var, value, assignment)\<close>: the three scans of lines 95 to 110, each
  returning False at its first hit. The box corner is computed after the row and the
  column scans, so a zero box size raises only when both scans found nothing.
\<close>

definition is_consistent :: "engine \<Rightarrow> cell \<Rightarrow> int \<Rightarrow> assignment \<Rightarrow> error + bool" where
  "is_consistent csp var v a =
     (let row = fst var; col = snd var; bs = box_size csp in
      if \<exists>c \<in> set [0..<size' csp]. map_of a (row, c) = Some v then Inr False
      else if \<exists>r \<in> set [0..<size' csp]. map_of a (r, col) = Some v then Inr False
      else if bs = 0 then Inl ZeroDivisionError
      else
        let box_row = (row div bs) * bs; box_col = (col div bs) * bs in
        if \<exists>r \<in> set [box_row..<box_row + bs]. \<exists>c \<in> set [box_col..<box_col + bs].
             map_of a (r, c) = Some v
        then Inr False
        else Inr True)"

subsection \<open>Variable ordering\<close>

text \<open>\<open>_count_constraints(var, assignment)\<close>: the loop of lines 143 to 147.\<close>

fun count_loop :: "nat \<Rightarrow> cell \<Rightarrow> assignment \<Rightarrow> cell list \<Rightarrow> nat \<Rightarrow> error + nat" where
  "count_loop bs var a [] n = Inr n"
| "count_loop bs var a (k # ks) n =
     (if map_of a k = None \<and> k \<noteq> var
      then (case same_unit bs k var of
              Inl e \<Rightarrow> Inl e
            | Inr b \<Rightarrow> count_loop bs var a ks (if b then n + 1 else n))
      else count_loop bs var a ks n)"

definition count_constraints :: "engine \<Rightarrow> cell \<Rightarrow> assignment \<Rightarrow> error + nat" where
  "count_constraints csp var a = count_loop (box_size csp) var a (variables csp) 0"

text \<open>
  The key of line 127, \<open>(len(domains[v]), -count)\<close>, one per candidate and in the order of
  the candidates; the first exception ends the evaluation.
\<close>

fun mrv_keys ::
  "engine \<Rightarrow> domains \<Rightarrow> assignment \<Rightarrow> cell list \<Rightarrow> error + (cell \<times> nat \<times> int) list" where
  "mrv_keys csp doms a [] = Inr []"
| "mrv_keys csp doms a (v # vs) =
     (case map_of doms v of
        None \<Rightarrow> Inl KeyError
      | Some d \<Rightarrow>
          (case count_constraints csp v a of
             Inl e \<Rightarrow> Inl e
           | Inr n \<Rightarrow>
               (case mrv_keys csp doms a vs of
                  Inl e \<Rightarrow> Inl e
                | Inr ks \<Rightarrow> Inr ((v, length d, - int n) # ks))))"

text \<open>Python's order on pairs.\<close>

definition key_less :: "nat \<times> int \<Rightarrow> nat \<times> int \<Rightarrow> bool" where
  "key_less p q = (fst p < fst q \<or> (fst p = fst q \<and> snd p < snd q))"

text \<open>\<open>min\<close> with a key keeps the first element whose key no later key is below.\<close>

fun min_by_key :: "cell \<times> nat \<times> int \<Rightarrow> (cell \<times> nat \<times> int) list \<Rightarrow> cell \<times> nat \<times> int" where
  "min_by_key best [] = best"
| "min_by_key best (x # xs) = min_by_key (if key_less (snd x) (snd best) then x else best) xs"

definition unassigned :: "engine \<Rightarrow> assignment \<Rightarrow> cell list" where
  "unassigned csp a = filter (\<lambda>v. map_of a v = None) (variables csp)"

text \<open>\<open>select_unassigned_var\<close>; \<open>min\<close> of an empty list raises ValueError.\<close>

definition select_unassigned_var :: "engine \<Rightarrow> domains \<Rightarrow> assignment \<Rightarrow> error + cell" where
  "select_unassigned_var csp doms a =
     (case unassigned csp a of
        [] \<Rightarrow> Inl ValueError
      | u # us \<Rightarrow>
          (case mrv_keys csp doms a (u # us) of
             Inl e \<Rightarrow> Inl e
           | Inr [] \<Rightarrow> Inl ValueError
           | Inr (k # ks) \<Rightarrow> Inr (fst (min_by_key k ks))))"

subsection \<open>Value ordering\<close>

text \<open>The inner function \<open>eliminated_count(value)\<close> of lines 163 to 173.\<close>

fun eliminated_loop ::
  "nat \<Rightarrow> cell \<Rightarrow> domains \<Rightarrow> assignment \<Rightarrow> int \<Rightarrow> cell list \<Rightarrow> nat \<Rightarrow> error + nat" where
  "eliminated_loop bs var doms a v [] n = Inr n"
| "eliminated_loop bs var doms a v (k # ks) n =
     (if k = var \<or> map_of a k \<noteq> None then eliminated_loop bs var doms a v ks n
      else (case same_unit bs k var of
              Inl e \<Rightarrow> Inl e
            | Inr False \<Rightarrow> eliminated_loop bs var doms a v ks n
            | Inr True \<Rightarrow>
                (case map_of doms k of
                   None \<Rightarrow> Inl KeyError
                 | Some d \<Rightarrow>
                     eliminated_loop bs var doms a v ks
                       (if v \<in> set d then n + 1 else n))))"

definition eliminated_count ::
  "engine \<Rightarrow> cell \<Rightarrow> domains \<Rightarrow> assignment \<Rightarrow> int \<Rightarrow> error + nat" where
  "eliminated_count csp var doms a v =
     eliminated_loop (box_size csp) var doms a v (variables csp) 0"

text \<open>\<open>list.sort(key=...)\<close> computes the key of every element first, in order.\<close>

fun lcv_keys ::
  "engine \<Rightarrow> cell \<Rightarrow> domains \<Rightarrow> assignment \<Rightarrow> int list \<Rightarrow> error + (int \<times> nat) list" where
  "lcv_keys csp var doms a [] = Inr []"
| "lcv_keys csp var doms a (v # vs) =
     (case eliminated_count csp var doms a v of
        Inl e \<Rightarrow> Inl e
      | Inr n \<Rightarrow>
          (case lcv_keys csp var doms a vs of
             Inl e \<Rightarrow> Inl e
           | Inr ks \<Rightarrow> Inr ((v, n) # ks)))"

text \<open>
  \<open>order_domain_values\<close>: a stable sort of \<open>domains[var]\<close> by the elimination count
  (\<open>sort_key\<close> is a stable insertion sort, Python's sort is stable too).
\<close>

definition order_domain_values ::
  "engine \<Rightarrow> cell \<Rightarrow> domains \<Rightarrow> assignment \<Rightarrow> error + int list" where
  "order_domain_values csp var doms a =
     (case map_of doms var of
        None \<Rightarrow> Inl KeyError
      | Some d \<Rightarrow>
          (case lcv_keys csp var doms a d of
             Inl e \<Rightarrow> Inl e
           | Inr ks \<Rightarrow> Inr (map fst (sort_key snd ks))))"

subsection \<open>Forward checking\<close>

text \<open>
  The loop of lines 200 to 212 over \<open>self.variables\<close>, on the copy \<open>new_domains\<close> and the
  record \<open>removed\<close>. The result \<open>None\<close> in the first component is the failure
  \<open>return None, removed\<close>.
\<close>

fun forward_check_loop ::
  "nat \<Rightarrow> cell \<Rightarrow> int \<Rightarrow> cell list \<Rightarrow> domains \<Rightarrow> domains \<Rightarrow> error + (domains option \<times> domains)" where
  "forward_check_loop bs var v [] nd removed = Inr (Some nd, removed)"
| "forward_check_loop bs var v (k # ks) nd removed =
     (if k = var then forward_check_loop bs var v ks nd removed
      else (case same_unit bs k var of
              Inl e \<Rightarrow> Inl e
            | Inr False \<Rightarrow> forward_check_loop bs var v ks nd removed
            | Inr True \<Rightarrow>
                (case map_of nd k of
                   None \<Rightarrow> Inl KeyError
                 | Some d \<Rightarrow>
                     if v \<in> set d
                     then (case map_of removed k of
                             None \<Rightarrow> Inl KeyError
                           | Some rm \<Rightarrow>
                               let nd' = AList.update k (remove1 v d) nd;
                                   removed' = AList.update k (rm @ [v]) removed
                               in if remove1 v d = [] then Inr (None, removed')
                                  else forward_check_loop bs var v ks nd' removed')
                     else if d = [] then Inr (None, removed)
                     else forward_check_loop bs var v ks nd removed)))"

text \<open>
  \<open>forward_check(var, value, domains)\<close>: \<open>new_domains\<close> is a copy of every list of
  \<open>domains\<close>, \<open>removed\<close> maps every key to an empty list, and \<open>new_domains[var]\<close> is set
  to \<open>[value]\<close> before the loop.
\<close>

definition forward_check ::
  "engine \<Rightarrow> cell \<Rightarrow> int \<Rightarrow> domains \<Rightarrow> error + (domains option \<times> domains)" where
  "forward_check csp var v doms =
     forward_check_loop (box_size csp) var v (variables csp)
       (AList.update var [v] (map (\<lambda>(k, d). (k, d)) doms))
       (map (\<lambda>(k, d). (k, [])) doms)"

subsection \<open>Backtracking search\<close>

text \<open>The events that \<open>backtrack_generator\<close> yields, tagged as in the source.\<close>

datatype event =
  Mrv cell "int list"
| Lcv cell "int list"
| Pruned cell int
| Assign cell int assignment
| Fc_fail cell int domains
| Fc_ok cell int domains
| Solution assignment
| Unassign cell assignment

text \<open>
  A full drain of the generator: the events in the order they are yielded, the counters
  at the end, and the exception that ended the drain, if one did.
\<close>

record result =
  events :: "event list"
  final :: stats
  err :: "error option"

definition yield :: "event list \<Rightarrow> result \<Rightarrow> result" where
  "yield es r = r\<lparr>events := es @ events r\<rparr>"

text \<open>
  The \<open>for value in lcv_order\<close> loop: the body runs on each value in turn with the
  counters the previous round left, and an exception in a round ends the loop.
\<close>

fun for_values :: "(int \<Rightarrow> stats \<Rightarrow> result) \<Rightarrow> int list \<Rightarrow> stats \<Rightarrow> result" where
  "for_values body [] st = \<lparr>events = [], final = st, err = None\<rparr>"
| "for_values body (v # vs) st =
     (let r = body v st in
      if err r \<noteq> None then r else yield (events r) (for_values body vs (final r)))"

lemma for_values_eq:
  "(\<And>v s. v \<in> set vs \<Longrightarrow> body v s = body' v s) \<Longrightarrow>
   for_values body vs st = for_values body' vs st"
  by (induction vs arbitrary: st) (simp_all add: Let_def)

lemma for_values_cong [fundef_cong]:
  assumes "vs = vs'" "st = st'" "\<And>v s. v \<in> set vs' \<Longrightarrow> body v s = body' v s"
  shows "for_values body vs st = for_values body' vs' st'"
  using assms for_values_eq [of vs' body body' st'] by simp

lemma min_by_key_mem: "min_by_key k ks \<in> set (k # ks)"
  by (induction ks arbitrary: k) (simp, fastforce)

lemma mrv_keys_fst: "mrv_keys csp doms a vs = Inr ks \<Longrightarrow> map fst ks = vs"
  by (induction vs arbitrary: ks) (auto split: option.splits sum.splits)

lemma select_unassigned:
  assumes "select_unassigned_var csp doms a = Inr var"
  shows "var \<in> set (unassigned csp a)"
proof -
  from assms obtain k ks where ks: "mrv_keys csp doms a (unassigned csp a) = Inr (k # ks)"
    and var: "var = fst (min_by_key k ks)"
    by (auto simp: select_unassigned_var_def split: list.splits sum.splits)
  have "min_by_key k ks \<in> set (k # ks)" by (rule min_by_key_mem)
  then have "var \<in> set (map fst (k # ks))" unfolding var by (metis image_eqI set_map)
  with mrv_keys_fst [OF ks] show ?thesis by simp
qed

lemma unassigned_update_less:
  assumes "var \<in> set (unassigned csp a)"
  shows "length (unassigned csp (AList.update var v a)) < length (unassigned csp a)"
proof -
  have eq: "unassigned csp (AList.update var v a) = filter (\<lambda>k. k \<noteq> var) (unassigned csp a)"
    unfolding unassigned_def by (auto simp: update_conv' intro: filter_cong)
  show ?thesis unfolding eq using assms by (rule length_filter_less) simp
qed

text \<open>
  \<open>backtrack_generator(domains, assignment)\<close> with both arguments given. The dict
  \<open>assignment\<close> is one object shared by all calls; each round of the loop adds
  \<open>assignment[var] = value\<close> before it recurses and runs \<open>del assignment[var]\<close> after
  the recursive call has returned, so a call leaves the dict as it found it. The model
  passes the extended dict to the recursive call and goes on with the caller's own.
\<close>

function backtrack_from :: "engine \<Rightarrow> domains \<Rightarrow> assignment \<Rightarrow> stats \<Rightarrow> result" where
  "backtrack_from csp doms a st =
     (let st1 = st\<lparr>nodes := nodes st + 1\<rparr> in
      if length a = length (variables csp)
      then \<lparr>events = [Solution a], final = st1\<lparr>solutions := solutions st1 + 1\<rparr>, err = None\<rparr>
      else
        (case select_unassigned_var csp doms a of
           Inl e \<Rightarrow> \<lparr>events = [], final = st1, err = Some e\<rparr>
         | Inr var \<Rightarrow>
             (case map_of doms var of
                None \<Rightarrow> \<lparr>events = [], final = st1, err = Some KeyError\<rparr>
              | Some d \<Rightarrow>
                  (case order_domain_values csp var doms a of
                     Inl e \<Rightarrow> \<lparr>events = [Mrv var d], final = st1, err = Some e\<rparr>
                   | Inr lcv_order \<Rightarrow>
                       yield [Mrv var d, Lcv var lcv_order]
                         (for_values
                            (\<lambda>v s.
                               case is_consistent csp var v a of
                                 Inl e \<Rightarrow> \<lparr>events = [], final = s, err = Some e\<rparr>
                               | Inr False \<Rightarrow> \<lparr>events = [Pruned var v], final = s, err = None\<rparr>
                               | Inr True \<Rightarrow>
                                   (let a1 = AList.update var v a in
                                    case forward_check csp var v doms of
                                      Inl e \<Rightarrow>
                                        \<lparr>events = [Assign var v a1], final = s, err = Some e\<rparr>
                                    | Inr (None, removed) \<Rightarrow>
                                        \<lparr>events = [Assign var v a1, Fc_fail var v removed,
                                                   Unassign var (AList.delete var a1)],
                                         final = s\<lparr>backtracks := backtracks s + 1\<rparr>,
                                         err = None\<rparr>
                                    | Inr (Some new_domains, removed) \<Rightarrow>
                                        (let r = backtrack_from csp new_domains a1 s in
                                         if err r \<noteq> None
                                         then yield [Assign var v a1, Fc_ok var v removed] r
                                         else
                                           \<lparr>events = [Assign var v a1, Fc_ok var v removed]
                                              @ events r @ [Unassign var (AList.delete var a1)],
                                            final = (final r)\<lparr>backtracks :=
                                                       backtracks (final r) + 1\<rparr>,
                                            err = None\<rparr>)))
                            lcv_order st1)))))"
  by pat_completeness auto

termination
  by (relation "measure (\<lambda>(csp, doms, a, st). length (unassigned csp a))")
     (auto dest!: select_unassigned intro: unassigned_update_less)

declare backtrack_from.simps [simp del]

text \<open>
  The defaults of lines 228 to 231: \<open>domains = {v: list(self.initial_domains[v]) for v in
  self.variables}\<close> and the empty assignment.
\<close>

fun default_domains :: "domains \<Rightarrow> cell list \<Rightarrow> domains \<Rightarrow> error + domains" where
  "default_domains init [] acc = Inr acc"
| "default_domains init (v # vs) acc =
     (case map_of init v of
        None \<Rightarrow> Inl KeyError
      | Some d \<Rightarrow> default_domains init vs (AList.update v d acc))"

definition backtrack_generator :: "engine \<Rightarrow> stats \<Rightarrow> result" where
  "backtrack_generator csp st =
     (case default_domains (initial_domains csp) (variables csp) [] of
        Inl e \<Rightarrow> \<lparr>events = [], final = st, err = Some e\<rparr>
      | Inr doms \<Rightarrow> backtrack_from csp doms [] st)"

subsection \<open>Validation (src/puzzles/generator.py)\<close>

text \<open>
  The loop of \<open>is_valid_puzzle\<close> over the events: \<open>Inl False\<close> is the \<open>return False\<close>
  inside the loop, taken at the second solution event; \<open>Inr n\<close> is the count when
  the events are exhausted.
\<close>

fun consume :: "event list \<Rightarrow> nat \<Rightarrow> bool + nat" where
  "consume [] n = Inr n"
| "consume (Solution s # es) n =
     (if n + 1 > 1 then Inl False else consume es (n + 1))"
| "consume (e # es) n = consume es n"

text \<open>
  \<open>is_valid_puzzle(board)\<close>: the size is \<open>len(board)\<close>. An exception of the constructor
  or of the generator reaches the caller; the generator's only when the loop did not
  return before it.
\<close>

definition is_valid_puzzle :: "board \<Rightarrow> error + bool" where
  "is_valid_puzzle b =
     (case SudokuCSP_init (int (length b)) (Some b) of
        Inl e \<Rightarrow> Inl e
      | Inr (csp, st) \<Rightarrow>
          (let r = backtrack_generator csp st in
           case consume (events r) 0 of
             Inl answer \<Rightarrow> Inr answer
           | Inr solution_count \<Rightarrow>
               (case err r of
                  Some e \<Rightarrow> Inl e
                | None \<Rightarrow> Inr (solution_count = 1))))"

subsection \<open>Objects and references\<close>

text \<open>
  Python lists and dicts are objects that several names can refer to, and
  \<open>list.remove\<close>, \<open>list.append\<close> and item assignment change the object itself. Where a
  property is about which objects a function changes, the store is explicit: a heap is
  the list of the objects allocated so far, a reference is an index into it, and a new
  object goes to the end. A list of integers is \<open>IntList\<close>, a list of references to rows
  (a grid) is \<open>Rows\<close>, and a dict from cells to references is \<open>Dict\<close>. Reading a
  reference that holds an object of another kind is a TypeError.
\<close>

datatype obj = IntList "int list" | Rows "nat list" | Dict "(cell \<times> nat) list"

type_synonym heap = "obj list"

definition alloc :: "obj \<Rightarrow> heap \<Rightarrow> nat \<times> heap" where
  "alloc ob h = (length h, h @ [ob])"

definition get_list :: "heap \<Rightarrow> nat \<Rightarrow> error + int list" where
  "get_list h a =
     (if a < length h then (case h ! a of IntList xs \<Rightarrow> Inr xs | _ \<Rightarrow> Inl TypeError)
      else Inl TypeError)"

definition get_dict :: "heap \<Rightarrow> nat \<Rightarrow> error + (cell \<times> nat) list" where
  "get_dict h a =
     (if a < length h then (case h ! a of Dict es \<Rightarrow> Inr es | _ \<Rightarrow> Inl TypeError)
      else Inl TypeError)"

definition get_rows :: "heap \<Rightarrow> nat \<Rightarrow> error + nat list" where
  "get_rows h a =
     (if a < length h then (case h ! a of Rows rs \<Rightarrow> Inr rs | _ \<Rightarrow> Inl TypeError)
      else Inl TypeError)"

text \<open>\<open>{v: list(domains[v]) for v in domains}\<close>: a new list for every key.\<close>

fun copy_lists :: "(cell \<times> nat) list \<Rightarrow> heap \<Rightarrow> error + ((cell \<times> nat) list \<times> heap)" where
  "copy_lists [] h = Inr ([], h)"
| "copy_lists ((k, a) # rest) h =
     (case get_list h a of
        Inl e \<Rightarrow> Inl e
      | Inr xs \<Rightarrow>
          (case copy_lists rest (snd (alloc (IntList xs) h)) of
             Inl e \<Rightarrow> Inl e
           | Inr (d, h') \<Rightarrow> Inr ((k, fst (alloc (IntList xs) h)) # d, h')))"

text \<open>\<open>{v: [] for v in domains}\<close>.\<close>

fun empty_lists :: "(cell \<times> nat) list \<Rightarrow> heap \<Rightarrow> (cell \<times> nat) list \<times> heap" where
  "empty_lists [] h = ([], h)"
| "empty_lists ((k, a) # rest) h =
     (case empty_lists rest (snd (alloc (IntList []) h)) of
        (d, h') \<Rightarrow> ((k, fst (alloc (IntList []) h)) # d, h'))"

text \<open>
  The loop of lines 200 to 212 on the store: \<open>new_domains[(r, c)].remove(value)\<close> and
  \<open>removed[(r, c)].append(value)\<close> change the list objects that the two dicts refer to,
  and the test of line 211 reads \<open>new_domains[(r, c)]\<close> again.
\<close>

fun forward_check_loop_h ::
  "nat \<Rightarrow> cell \<Rightarrow> int \<Rightarrow> cell list \<Rightarrow> nat \<Rightarrow> nat \<Rightarrow> heap \<Rightarrow> error + ((nat option \<times> nat) \<times> heap)" where
  "forward_check_loop_h bs var v [] nd_ref rm_ref h = Inr ((Some nd_ref, rm_ref), h)"
| "forward_check_loop_h bs var v (k # ks) nd_ref rm_ref h =
     (if k = var then forward_check_loop_h bs var v ks nd_ref rm_ref h
      else (case same_unit bs k var of
              Inl e \<Rightarrow> Inl e
            | Inr False \<Rightarrow> forward_check_loop_h bs var v ks nd_ref rm_ref h
            | Inr True \<Rightarrow>
                (case get_dict h nd_ref of
                   Inl e \<Rightarrow> Inl e
                 | Inr nd \<Rightarrow>
                     (case map_of nd k of
                        None \<Rightarrow> Inl KeyError
                      | Some a \<Rightarrow>
                          (case get_list h a of
                             Inl e \<Rightarrow> Inl e
                           | Inr d \<Rightarrow>
                               if v \<in> set d
                               then
                                 (let h1 = h[a := IntList (remove1 v d)] in
                                  case get_dict h1 rm_ref of
                                    Inl e \<Rightarrow> Inl e
                                  | Inr rm \<Rightarrow>
                                      (case map_of rm k of
                                         None \<Rightarrow> Inl KeyError
                                       | Some ra \<Rightarrow>
                                           (case get_list h1 ra of
                                              Inl e \<Rightarrow> Inl e
                                            | Inr rl \<Rightarrow>
                                                (let h2 = h1[ra := IntList (rl @ [v])] in
                                                 case get_list h2 a of
                                                   Inl e \<Rightarrow> Inl e
                                                 | Inr d2 \<Rightarrow>
                                                     if d2 = [] then Inr ((None, rm_ref), h2)
                                                     else forward_check_loop_h bs var v ks
                                                            nd_ref rm_ref h2))))
                               else if d = [] then Inr ((None, rm_ref), h)
                               else forward_check_loop_h bs var v ks nd_ref rm_ref h)))))"

text \<open>
  \<open>forward_check(var, value, domains)\<close> on the store; \<open>domains\<close> is a reference to a
  dict. The result holds the references that the call returns and the store it leaves.
\<close>

definition forward_check_h ::
  "engine \<Rightarrow> cell \<Rightarrow> int \<Rightarrow> nat \<Rightarrow> heap \<Rightarrow> error + ((nat option \<times> nat) \<times> heap)" where
  "forward_check_h csp var v domains h =
     (case get_dict h domains of
        Inl e \<Rightarrow> Inl e
      | Inr es \<Rightarrow>
          (case copy_lists es h of
             Inl e \<Rightarrow> Inl e
           | Inr (nd, h1) \<Rightarrow>
               (let (new_domains, h2) = alloc (Dict nd) h1;
                    (rm, h3) = empty_lists es h2;
                    (removed, h4) = alloc (Dict rm) h3;
                    (single, h5) = alloc (IntList [v]) h4;
                    h6 = h5[new_domains := Dict (AList.update var single nd)]
                in forward_check_loop_h (box_size csp) var v (variables csp) new_domains removed h6)))"

text \<open>The value of a dict of lists: every key with the list its entry refers to.\<close>

fun read_entries :: "heap \<Rightarrow> (cell \<times> nat) list \<Rightarrow> error + domains" where
  "read_entries h [] = Inr []"
| "read_entries h ((k, a) # rest) =
     (case get_list h a of
        Inl e \<Rightarrow> Inl e
      | Inr xs \<Rightarrow> (case read_entries h rest of Inl e \<Rightarrow> Inl e | Inr d \<Rightarrow> Inr ((k, xs) # d)))"

definition read_domains :: "heap \<Rightarrow> nat \<Rightarrow> error + domains" where
  "read_domains h a = (case get_dict h a of Inl e \<Rightarrow> Inl e | Inr es \<Rightarrow> read_entries h es)"

text \<open>The dict behind a reference refers only to objects allocated at or after \<open>n0\<close>.\<close>

definition lists_from :: "nat \<Rightarrow> nat \<Rightarrow> heap \<Rightarrow> bool" where
  "lists_from n0 r h = (\<forall>es. get_dict h r = Inr es \<longrightarrow> (\<forall>(k, a) \<in> set es. n0 \<le> a))"

text \<open>
  The constructor on the store. The engine refers to its \<open>initial_domains\<close> dict and to its
  \<open>initial_board\<close> grid; \<open>variables\<close> is a list of tuples that the constructor fills by
  \<open>append\<close> and that nothing else refers to, so it is kept as a value.
\<close>

record engine_h =
  size_h :: nat
  box_size_h :: nat
  variables_h :: "cell list"
  initial_domains_h :: nat
  initial_board_h :: nat

text \<open>\<open>[row[:] for row in initial_board]\<close> (line 40): a new list for every row.\<close>

fun copy_rows :: "nat list \<Rightarrow> heap \<Rightarrow> error + (nat list \<times> heap)" where
  "copy_rows [] h = Inr ([], h)"
| "copy_rows (a # rest) h =
     (case get_list h a of
        Inl e \<Rightarrow> Inl e
      | Inr xs \<Rightarrow>
          (case copy_rows rest (snd (alloc (IntList xs) h)) of
             Inl e \<Rightarrow> Inl e
           | Inr (rs, h') \<Rightarrow> Inr (fst (alloc (IntList xs) h) # rs, h')))"

text \<open>\<open>[[0 for _ in range(size)] for _ in range(size)]\<close> (line 38).\<close>

fun zero_rows :: "nat \<Rightarrow> nat \<Rightarrow> heap \<Rightarrow> nat list \<times> heap" where
  "zero_rows 0 n h = ([], h)"
| "zero_rows (Suc m) n h =
     (case zero_rows m n (snd (alloc (IntList (replicate n 0)) h)) of
        (rs, h') \<Rightarrow> (fst (alloc (IntList (replicate n 0)) h) # rs, h'))"

text \<open>\<open>self.initial_board[r][c]\<close>, read through the two references.\<close>

definition board_at_h :: "heap \<Rightarrow> nat \<Rightarrow> nat \<Rightarrow> nat \<Rightarrow> error + int" where
  "board_at_h h b r c =
     (case get_rows h b of
        Inl e \<Rightarrow> Inl e
      | Inr rows \<Rightarrow>
          if r < length rows
          then (case get_list h (rows ! r) of
                  Inl e \<Rightarrow> Inl e
                | Inr row \<Rightarrow> if c < length row then Inr (row ! c) else Inl IndexError)
          else Inl IndexError)"

text \<open>
  Lines 43 to 47: \<open>self.initial_domains[(r, c)] = list(range(1, size + 1))\<close> allocates the
  list and changes the dict object behind \<open>d\<close>.
\<close>

fun setup_variables_h ::
  "nat \<Rightarrow> nat \<Rightarrow> nat \<Rightarrow> cell list \<Rightarrow> cell list \<Rightarrow> heap \<Rightarrow> error + (cell list \<times> heap)" where
  "setup_variables_h n b d [] vars h = Inr (vars, h)"
| "setup_variables_h n b d ((r, c) # rest) vars h =
     (case board_at_h h b r c of
        Inl e \<Rightarrow> Inl e
      | Inr x \<Rightarrow>
          if x = 0
          then (case get_dict (snd (alloc (IntList [1..int n]) h)) d of
                  Inl e \<Rightarrow> Inl e
                | Inr es \<Rightarrow>
                    setup_variables_h n b d rest (vars @ [(r, c)])
                      ((snd (alloc (IntList [1..int n]) h))
                         [d := Dict (AList.update (r, c) (fst (alloc (IntList [1..int n]) h)) es)]))
          else setup_variables_h n b d rest vars h)"

text \<open>
  \<open>_remove_conflicts\<close> walks the keys that the dict has on entry and changes the list
  objects that the entries refer to (\<open>domains[(r, c)].remove(value)\<close>).
\<close>

fun remove_conflicts_h :: "nat \<Rightarrow> cell \<Rightarrow> int \<Rightarrow> (cell \<times> nat) list \<Rightarrow> heap \<Rightarrow> error + heap" where
  "remove_conflicts_h bs rc v [] h = Inr h"
| "remove_conflicts_h bs rc v ((k, a) # rest) h =
     (case same_unit bs k rc of
        Inl e \<Rightarrow> Inl e
      | Inr False \<Rightarrow> remove_conflicts_h bs rc v rest h
      | Inr True \<Rightarrow>
          (case get_list h a of
             Inl e \<Rightarrow> Inl e
           | Inr d \<Rightarrow>
               remove_conflicts_h bs rc v rest
                 (if v \<in> set d then h[a := IntList (remove1 v d)] else h)))"

text \<open>Lines 50 to 54.\<close>

fun prune_initial_h :: "nat \<Rightarrow> nat \<Rightarrow> nat \<Rightarrow> cell list \<Rightarrow> heap \<Rightarrow> error + heap" where
  "prune_initial_h b bs d [] h = Inr h"
| "prune_initial_h b bs d ((r, c) # rest) h =
     (case board_at_h h b r c of
        Inl e \<Rightarrow> Inl e
      | Inr x \<Rightarrow>
          if x \<noteq> 0
          then (case get_dict h d of
                  Inl e \<Rightarrow> Inl e
                | Inr es \<Rightarrow>
                    (case remove_conflicts_h bs (r, c) x es h of
                       Inl e \<Rightarrow> Inl e
                     | Inr h' \<Rightarrow> prune_initial_h b bs d rest h'))
          else prune_initial_h b bs d rest h)"

text \<open>Lines 43 to 56, once the grid of the engine is in the store at \<open>b\<close>.\<close>

definition build_h ::
  "nat \<Rightarrow> nat \<Rightarrow> nat \<Rightarrow> nat \<Rightarrow> heap \<Rightarrow> error + (engine_h \<times> stats \<times> heap)" where
  "build_h n bs d b h =
     (case setup_variables_h n b d (cells n) [] h of
        Inl e \<Rightarrow> Inl e
      | Inr (vars, h') \<Rightarrow>
          (case prune_initial_h b bs d (cells n) h' of
             Inl e \<Rightarrow> Inl e
           | Inr h'' \<Rightarrow>
               Inr (\<lparr>size_h = n, box_size_h = bs, variables_h = vars,
                     initial_domains_h = d, initial_board_h = b\<rparr>, reset, h'')))"

text \<open>
  \<open>SudokuCSP(size, initial_board)\<close> on the store; \<open>initial_board\<close> is a reference to the
  caller's grid. The result holds the engine, its counters and the store the call leaves.
\<close>

definition init_h :: "int \<Rightarrow> nat option \<Rightarrow> heap \<Rightarrow> error + (engine_h \<times> stats \<times> heap)" where
  "init_h sz initial h =
     (if sz < 0 then Inl ValueError
      else
        let n = nat sz;
            bs = isqrt n;
            (d, h1) = alloc (Dict []) h
        in case (case initial of
                   None \<Rightarrow> Inr (zero_rows n n h1)
                 | Some given \<Rightarrow>
                     (case get_rows h1 given of
                        Inl e \<Rightarrow> Inl e
                      | Inr rows \<Rightarrow> copy_rows rows h1)) of
             Inl e \<Rightarrow> Inl e
           | Inr (rs, h2) \<Rightarrow>
               (let (b, h3) = alloc (Rows rs) h2 in build_h n bs d b h3))"

text \<open>The value of a grid, and the engine that the references of an engine stand for.\<close>

fun read_rows :: "heap \<Rightarrow> nat list \<Rightarrow> error + board" where
  "read_rows h [] = Inr []"
| "read_rows h (a # rest) =
     (case get_list h a of
        Inl e \<Rightarrow> Inl e
      | Inr xs \<Rightarrow> (case read_rows h rest of Inl e \<Rightarrow> Inl e | Inr b \<Rightarrow> Inr (xs # b)))"

definition read_board :: "heap \<Rightarrow> nat \<Rightarrow> error + board" where
  "read_board h a = (case get_rows h a of Inl e \<Rightarrow> Inl e | Inr rs \<Rightarrow> read_rows h rs)"

definition read_engine :: "heap \<Rightarrow> engine_h \<Rightarrow> error + engine" where
  "read_engine h eng =
     (case read_domains h (initial_domains_h eng) of
        Inl e \<Rightarrow> Inl e
      | Inr doms \<Rightarrow>
          (case read_board h (initial_board_h eng) of
             Inl e \<Rightarrow> Inl e
           | Inr b \<Rightarrow>
               Inr \<lparr>size' = size_h eng, box_size = box_size_h eng, variables = variables_h eng,
                    initial_domains = doms, initial_board = b\<rparr>))"

text \<open>
  \<open>is_valid_puzzle(board)\<close> on the store. The drain works on the engine and on dicts and
  lists of its own (see \<open>backtrack_generator\<close>); it holds no reference to \<open>board\<close>, so
  it is run on the value of the engine and the store is the one the constructor leaves.
\<close>

definition is_valid_puzzle_h :: "nat \<Rightarrow> heap \<Rightarrow> error + (bool \<times> heap)" where
  "is_valid_puzzle_h board h =
     (case get_rows h board of
        Inl e \<Rightarrow> Inl e
      | Inr rows \<Rightarrow>
          (case init_h (int (length rows)) (Some board) h of
             Inl e \<Rightarrow> Inl e
           | Inr (eng, st, h') \<Rightarrow>
               (case read_engine h' eng of
                  Inl e \<Rightarrow> Inl e
                | Inr csp \<Rightarrow>
                    (let r = backtrack_generator csp st in
                     case consume (events r) 0 of
                       Inl answer \<Rightarrow> Inr (answer, h')
                     | Inr solution_count \<Rightarrow>
                         (case err r of
                            Some e \<Rightarrow> Inl e
                          | None \<Rightarrow> Inr (solution_count = 1, h'))))))"

text \<open>
  \<open>keeps A h h'\<close>: every object of \<open>h\<close> at a reference in \<open>A\<close> is the same object in
  \<open>h'\<close>. \<open>dict_rel\<close> and \<open>grid_rel\<close> relate a dict of lists and a grid in the store to
  their values; the entries of the dict refer to distinct lists at or after \<open>m\<close>.
\<close>

definition keeps :: "nat set \<Rightarrow> heap \<Rightarrow> heap \<Rightarrow> bool" where
  "keeps A h h' = (length h \<le> length h' \<and> (\<forall>a \<in> A. a < length h \<longrightarrow> h' ! a = h ! a))"

definition dict_rel :: "nat \<Rightarrow> nat \<Rightarrow> heap \<Rightarrow> domains \<Rightarrow> bool" where
  "dict_rel m d h doms =
     (\<exists>es. get_dict h d = Inr es \<and> distinct (map snd es) \<and> (\<forall>a \<in> snd ` set es. m \<le> a) \<and>
           read_entries h es = Inr doms)"

definition grid_rel :: "nat set \<Rightarrow> nat \<Rightarrow> heap \<Rightarrow> board \<Rightarrow> bool" where
  "grid_rel A b h B =
     (\<exists>rs. get_rows h b = Inr rs \<and> b \<in> A \<and> set rs \<subseteq> A \<and> read_rows h rs = Inr B)"

text \<open>
  The engine, its dict, its grid and the lists and rows these refer to were allocated at
  or after \<open>n0\<close>.
\<close>

definition owned :: "nat \<Rightarrow> engine_h \<Rightarrow> heap \<Rightarrow> bool" where
  "owned n0 eng h =
     (n0 \<le> initial_domains_h eng \<and> n0 \<le> initial_board_h eng \<and>
      (\<exists>es. get_dict h (initial_domains_h eng) = Inr es \<and> (\<forall>a \<in> snd ` set es. n0 \<le> a)) \<and>
      (\<exists>rs. get_rows h (initial_board_h eng) = Inr rs \<and> (\<forall>a \<in> set rs. n0 \<le> a)))"

subsection \<open>Notions used to state the properties\<close>

text \<open>The entry of a grid at a cell, and whether the grid has that entry at all.\<close>

definition cell_value :: "board \<Rightarrow> cell \<Rightarrow> int" where
  "cell_value b k = b ! fst k ! snd k"

definition in_range :: "board \<Rightarrow> cell \<Rightarrow> bool" where
  "in_range b k = (fst k < length b \<and> snd k < length (b ! fst k))"

text \<open>
  A value clashes at a cell when a filled cell of the list \<open>cs\<close> in the same row, column
  or box holds it.
\<close>

definition clashes :: "board \<Rightarrow> nat \<Rightarrow> cell list \<Rightarrow> cell \<Rightarrow> int \<Rightarrow> bool" where
  "clashes b bs cs k x = (\<exists>k' \<in> set cs. cell_value b k' \<noteq> 0 \<and> cell_value b k' = x \<and> shares_unit bs k k')"

text \<open>The grid has an entry at every cell of the \<open>n\<close> by \<open>n\<close> square.\<close>

definition covers :: "board \<Rightarrow> nat \<Rightarrow> bool" where
  "covers b n = (\<forall>k \<in> set (cells n). in_range b k)"

text \<open>The grid the constructor works on: the given one, or all zeros.\<close>

definition given_board :: "nat \<Rightarrow> board option \<Rightarrow> board" where
  "given_board n initial =
     (case initial of None \<Rightarrow> replicate n (replicate n 0) | Some g \<Rightarrow> g)"

text \<open>
  The degree of a cell: how many other unassigned variables share its row, column or box.
\<close>

definition degree :: "engine \<Rightarrow> assignment \<Rightarrow> cell \<Rightarrow> nat" where
  "degree csp a k =
     card {u \<in> set (variables csp). map_of a u = None \<and> u \<noteq> k \<and> shares_unit (box_size csp) u k}"

text \<open>Kinds of events, and how many events of a kind a drain yielded.\<close>

fun is_solution :: "event \<Rightarrow> bool" where
  "is_solution (Solution s) = True"
| "is_solution e = False"

fun is_fc_ok :: "event \<Rightarrow> bool" where
  "is_fc_ok (Fc_ok k v rm) = True"
| "is_fc_ok e = False"

fun is_fc_fail :: "event \<Rightarrow> bool" where
  "is_fc_fail (Fc_fail k v rm) = True"
| "is_fc_fail e = False"

fun is_unassign :: "event \<Rightarrow> bool" where
  "is_unassign (Unassign k s) = True"
| "is_unassign e = False"

definition count_events :: "(event \<Rightarrow> bool) \<Rightarrow> event list \<Rightarrow> nat" where
  "count_events p es = length (filter p es)"

text \<open>One round of the loop, with the recursive call as a parameter.\<close>

definition try_value ::
  "engine \<Rightarrow> cell \<Rightarrow> domains \<Rightarrow> assignment \<Rightarrow> (domains \<Rightarrow> assignment \<Rightarrow> stats \<Rightarrow> result) \<Rightarrow>
   int \<Rightarrow> stats \<Rightarrow> result" where
  "try_value csp var doms a rec v s =
     (case is_consistent csp var v a of
        Inl e \<Rightarrow> \<lparr>events = [], final = s, err = Some e\<rparr>
      | Inr False \<Rightarrow> \<lparr>events = [Pruned var v], final = s, err = None\<rparr>
      | Inr True \<Rightarrow>
          (let a1 = AList.update var v a in
           case forward_check csp var v doms of
             Inl e \<Rightarrow> \<lparr>events = [Assign var v a1], final = s, err = Some e\<rparr>
           | Inr (None, removed) \<Rightarrow>
               \<lparr>events = [Assign var v a1, Fc_fail var v removed, Unassign var (AList.delete var a1)],
                final = s\<lparr>backtracks := backtracks s + 1\<rparr>, err = None\<rparr>
           | Inr (Some new_domains, removed) \<Rightarrow>
               (let r = rec new_domains a1 s in
                if err r \<noteq> None then yield [Assign var v a1, Fc_ok var v removed] r
                else \<lparr>events = [Assign var v a1, Fc_ok var v removed] @ events r
                               @ [Unassign var (AList.delete var a1)],
                      final = (final r)\<lparr>backtracks := backtracks (final r) + 1\<rparr>,
                      err = None\<rparr>)))"

text \<open>
  What a drain from counters \<open>st\<close> does to the counters, in terms of its events; \<open>c\<close> is 1
  for a call of the generator and 0 for its loop.
\<close>

definition tally :: "nat \<Rightarrow> stats \<Rightarrow> result \<Rightarrow> bool" where
  "tally c st r =
     (nodes (final r) = nodes st + c + count_events is_fc_ok (events r) \<and>
      solutions (final r) = solutions st + count_events is_solution (events r) \<and>
      backtracks (final r) = backtracks st + count_events is_unassign (events r) \<and>
      count_events is_solution (events r) \<le> c + count_events is_fc_ok (events r) \<and>
      (err r = None \<longrightarrow>
         count_events is_unassign (events r) =
           count_events is_fc_ok (events r) + count_events is_fc_fail (events r)))"

text \<open>
  The state in which the search raises nothing: a positive box size, no repeated variable,
  a duplicate-free domain for every variable, and an assignment over distinct variables.
\<close>

definition ready :: "engine \<Rightarrow> domains \<Rightarrow> assignment \<Rightarrow> bool" where
  "ready csp doms a =
     (0 < box_size csp \<and> distinct (variables csp) \<and>
      set (variables csp) \<subseteq> fst ` set doms \<and> (\<forall>(k, d) \<in> set doms. distinct d) \<and>
      distinct (map fst a) \<and> fst ` set a \<subseteq> set (variables csp))"

text \<open>
  A bound on the number of events of a call with \<open>u\<close> unassigned variables whose domains
  have at most \<open>N\<close> values: two events, then per value at most three events and the events
  of a call with one unassigned variable fewer.
\<close>

fun event_bound :: "nat \<Rightarrow> nat \<Rightarrow> nat" where
  "event_bound N 0 = 1"
| "event_bound N (Suc u) = 2 + N * (3 + event_bound N u)"

text \<open>The assignments of the solution events of a drain, in order, as lists and as maps.\<close>

fun sols :: "event list \<Rightarrow> assignment list" where
  "sols [] = []"
| "sols (Solution s # es) = s # sols es"
| "sols (e # es) = sols es"

definition found :: "result \<Rightarrow> (cell \<rightharpoonup> int) list" where
  "found r = map map_of (sols (events r))"

text \<open>
  A value is admissible at a variable when the initial domain of the variable holds it. A
  map from cells to values is a valid total assignment of the engine when it maps exactly
  the variables, to admissible values, and gives different values to different cells
  that share a row, column or box. The extensions of an assignment are the valid total
  assignments that agree with it.
\<close>

definition admissible :: "engine \<Rightarrow> cell \<Rightarrow> int \<Rightarrow> bool" where
  "admissible csp k x = (\<exists>d. map_of (initial_domains csp) k = Some d \<and> x \<in> set d)"

definition total_valid :: "engine \<Rightarrow> (cell \<rightharpoonup> int) \<Rightarrow> bool" where
  "total_valid csp m =
     (dom m = set (variables csp) \<and>
      (\<forall>k x. m k = Some x \<longrightarrow> admissible csp k x) \<and>
      (\<forall>k k'. k \<noteq> k' \<and> shares_unit (box_size csp) k k' \<and> m k \<noteq> None \<longrightarrow> m k \<noteq> m k'))"

definition extensions :: "engine \<Rightarrow> assignment \<Rightarrow> (cell \<rightharpoonup> int) set" where
  "extensions csp a = {m. total_valid csp m \<and> map_of a \<subseteq>\<^sub>m m}"

text \<open>
  The states the search passes through: it raises nothing there, the variables lie in the
  grid, the assignment is admissible and free of clashes, the domains hold admissible
  values only, and no extension of the assignment uses a value outside the domains.
\<close>

definition search_state :: "engine \<Rightarrow> domains \<Rightarrow> assignment \<Rightarrow> bool" where
  "search_state csp doms a =
     (ready csp doms a \<and>
      (\<forall>k \<in> set (variables csp). fst k < size' csp \<and> snd k < size' csp) \<and>
      (\<forall>k x. map_of a k = Some x \<longrightarrow> admissible csp k x) \<and>
      (\<forall>k k' x. k \<noteq> k' \<and> shares_unit (box_size csp) k k' \<and> map_of a k = Some x \<longrightarrow>
                 map_of a k' \<noteq> Some x) \<and>
      (\<forall>k d x. map_of doms k = Some d \<and> x \<in> set d \<longrightarrow> admissible csp k x) \<and>
      (\<forall>m \<in> extensions csp a. \<forall>k d x. map_of doms k = Some d \<and> m k = Some x \<longrightarrow> x \<in> set d))"

text \<open>
  The rows, the columns and the boxes of the \<open>n\<close> by \<open>n\<close> grid, each as the list of its cells.
  A grid is solved when its entries along every one of them are a permutation of 1 to \<open>n\<close>.
\<close>

definition units :: "nat \<Rightarrow> nat \<Rightarrow> cell list list" where
  "units n bs =
     map (\<lambda>r. map (\<lambda>c. (r, c)) [0..<n]) [0..<n] @
     map (\<lambda>c. map (\<lambda>r. (r, c)) [0..<n]) [0..<n] @
     map (\<lambda>(i, j). map (\<lambda>(dr, dc). (i * bs + dr, j * bs + dc)) (cells bs)) (cells bs)"

definition solved :: "nat \<Rightarrow> nat \<Rightarrow> board \<Rightarrow> bool" where
  "solved n bs g = (\<forall>u \<in> set (units n bs). mset (map (cell_value g) u) = mset [1..int n])"

text \<open>
  A well-formed input board: the side has an integer square root, every row is as long as
  the board, every entry lies between 0 and the side, and no two filled cells of a row,
  column or box hold the same value.
\<close>

definition well_formed :: "board \<Rightarrow> bool" where
  "well_formed b =
     (isqrt (length b) * isqrt (length b) = length b \<and>
      (\<forall>row \<in> set b. length row = length b \<and> (\<forall>x \<in> set row. 0 \<le> x \<and> x \<le> int (length b))) \<and>
      (\<forall>k \<in> set (cells (length b)). \<forall>k' \<in> set (cells (length b)).
         k \<noteq> k' \<and> shares_unit (isqrt (length b)) k k' \<and> cell_value b k \<noteq> 0 \<longrightarrow>
         cell_value b k \<noteq> cell_value b k'))"

text \<open>
  The grid that has the value of the assignment at every assigned cell and the entry of the
  board elsewhere (what \<open>generate_puzzle\<close> writes back in lines 39 to 42 of generator.py).
\<close>

definition merge :: "board \<Rightarrow> nat \<Rightarrow> (cell \<rightharpoonup> int) \<Rightarrow> board" where
  "merge b n m =
     map (\<lambda>r. map (\<lambda>c. case m (r, c) of Some x \<Rightarrow> x | None \<Rightarrow> b ! r ! c) [0..<n]) [0..<n]"

text \<open>
  A completion of a board: a grid of the same shape that keeps every filled cell of the
  board and is solved.
\<close>

definition completion :: "board \<Rightarrow> board \<Rightarrow> bool" where
  "completion b g =
     (length g = length b \<and> (\<forall>row \<in> set g. length row = length b) \<and>
      (\<forall>k \<in> set (cells (length b)). cell_value b k \<noteq> 0 \<longrightarrow> cell_value g k = cell_value b k) \<and>
      solved (length b) (isqrt (length b)) g)"

text \<open>The assignment that a grid gives to the variables of an engine.\<close>

definition assignment_of :: "engine \<Rightarrow> board \<Rightarrow> (cell \<rightharpoonup> int)" where
  "assignment_of csp g = (\<lambda>k. if k \<in> set (variables csp) then Some (cell_value g k) else None)"

section \<open>Facts about the constructor\<close>

lemma isqrt_bounds: "isqrt n * isqrt n \<le> n \<and> n < (isqrt n + 1) * (isqrt n + 1)"
  by (induction n) (auto simp: Let_def)

lemma isqrt_pos: "0 < n \<Longrightarrow> 0 < isqrt n"
  using isqrt_bounds [of n] by (cases "isqrt n") auto

lemma isqrt_square: "isqrt (k * k) = k"
proof -
  let ?r = "isqrt (k * k)"
  have 1: "?r * ?r \<le> k * k" and 2: "k * k < (?r + 1) * (?r + 1)"
    using isqrt_bounds [of "k * k"] by auto
  have "?r \<le> k"
  proof (rule ccontr)
    assume "\<not> ?r \<le> k"
    then have h: "k + 1 \<le> ?r" by simp
    from mult_le_mono [OF h h] 1 show False by simp
  qed
  moreover have "k < ?r + 1"
  proof (rule ccontr)
    assume "\<not> k < ?r + 1"
    then have h: "?r + 1 \<le> k" by simp
    from mult_le_mono [OF h h] 2 show False by simp
  qed
  ultimately show ?thesis by simp
qed

lemma same_unit_pos: "0 < bs \<Longrightarrow> same_unit bs k k' = Inr (shares_unit bs k k')"
  by (auto simp: same_unit_def shares_unit_def)

lemma remove_conflicts_pos:
  "0 < bs \<Longrightarrow> remove_conflicts bs rc v doms =
     Inr (map (\<lambda>(k, d). (k, if shares_unit bs k rc \<and> v \<in> set d then remove1 v d else d)) doms)"
  by (induction doms) (auto simp: same_unit_pos)

lemma cells_set: "set (cells n) = {(r, c). r < n \<and> c < n}"
  by (auto simp: cells_def)

lemma distinct_cells: "distinct (cells n)"
  unfolding cells_def
  by (rule distinct_concat) (auto simp: distinct_map inj_on_def)

lemma board_at_in_range: "in_range b (r, c) \<Longrightarrow> board_at b r c = Inr (cell_value b (r, c))"
  by (simp add: board_at_def in_range_def cell_value_def)

lemma board_at_Inr: "board_at b r c = Inr x \<Longrightarrow> in_range b (r, c) \<and> x = cell_value b (r, c)"
  by (auto simp: board_at_def in_range_def cell_value_def split: if_splits)

lemma setup_variables_Inr:
  "setup_variables b n cs acc = Inr res \<Longrightarrow> \<forall>k \<in> set cs. in_range b k"
  by (induction b n cs acc rule: setup_variables.induct)
     (auto split: sum.splits if_splits dest: board_at_Inr)

lemma setup_variables_closed:
  "\<forall>k \<in> set cs. in_range b k \<Longrightarrow>
   setup_variables b n cs (vars, doms) =
     Inr (vars @ filter (\<lambda>k. cell_value b k = 0) cs,
          foldl (\<lambda>d k. AList.update k [1..int n] d) doms (filter (\<lambda>k. cell_value b k = 0) cs))"
  by (induction b n cs "(vars, doms)" arbitrary: vars doms rule: setup_variables.induct)
     (auto simp: board_at_in_range)

lemma update_fresh: "k \<notin> fst ` set d \<Longrightarrow> AList.update k x d = d @ [(k, x)]"
  by (induction d) auto

lemma foldl_update_fresh:
  "distinct ks \<Longrightarrow> set ks \<inter> fst ` set d = {} \<Longrightarrow>
   foldl (\<lambda>d k. AList.update k x d) d ks = d @ map (\<lambda>k. (k, x)) ks"
proof (induction ks arbitrary: d)
  case Nil then show ?case by simp
next
  case (Cons k ks)
  have "k \<notin> fst ` set d" using Cons.prems by auto
  then have u: "AList.update k x d = d @ [(k, x)]" by (rule update_fresh)
  have "set ks \<inter> fst ` set (d @ [(k, x)]) = {}" using Cons.prems by auto
  with Cons.IH [of "d @ [(k, x)]"] Cons.prems u show ?case by simp
qed

lemma remove1_filter: "distinct d \<Longrightarrow> remove1 v d = filter (\<lambda>x. x \<noteq> v) d"
  by (induction d) (auto intro: filter_True [symmetric])

lemma prune_initial_closed:
  assumes "0 < bs \<or> cs = []" "\<forall>k \<in> set cs. in_range b k" "\<forall>(k, d) \<in> set doms. distinct d"
  shows "prune_initial b bs cs doms =
     Inr (map (\<lambda>(k, d). (k, filter (\<lambda>x. \<not> clashes b bs cs k x) d)) doms)"
  using assms
proof (induction b bs cs doms rule: prune_initial.induct)
  case (1 b bs doms)
  then show ?case by (simp add: clashes_def case_prod_unfold)
next
  case (2 b bs r c rest doms)
  let ?x = "cell_value b (r, c)"
  have bs: "0 < bs" using "2.prems" by simp
  have at: "board_at b r c = Inr ?x" using "2.prems" by (simp add: board_at_in_range)
  show ?case
  proof (cases "?x = 0")
    case True
    have "prune_initial b bs rest doms =
      Inr (map (\<lambda>(k, d). (k, filter (\<lambda>x. \<not> clashes b bs rest k x) d)) doms)"
      using "2.IH"(2) [OF at] True "2.prems" bs by simp
    moreover have "clashes b bs ((r, c) # rest) k x = clashes b bs rest k x" for k x
      using True by (auto simp: clashes_def)
    ultimately show ?thesis using at True by simp
  next
    case False
    let ?d1 = "map (\<lambda>(k, d). (k, if shares_unit bs k (r, c) \<and> ?x \<in> set d then remove1 ?x d else d)) doms"
    have rc: "remove_conflicts bs (r, c) ?x doms = Inr ?d1" using bs by (rule remove_conflicts_pos)
    have d1: "\<forall>(k, d) \<in> set ?d1. distinct d" using "2.prems"(3) by auto
    have "prune_initial b bs rest ?d1 =
      Inr (map (\<lambda>(k, d). (k, filter (\<lambda>x. \<not> clashes b bs rest k x) d)) ?d1)"
      using "2.IH"(1) [OF at False rc] "2.prems" bs d1 by simp
    moreover have "map (\<lambda>(k, d). (k, filter (\<lambda>x. \<not> clashes b bs rest k x) d)) ?d1
       = map (\<lambda>(k, d). (k, filter (\<lambda>x. \<not> clashes b bs ((r, c) # rest) k x) d)) doms"
    proof (rule trans [OF map_map], rule map_cong [OF refl])
      fix p assume p: "p \<in> set doms"
      obtain k d where kd: "p = (k, d)" by (cases p)
      have dd: "distinct d" using "2.prems"(3) p kd by auto
      have cl: "clashes b bs ((r, c) # rest) k x = ((x = ?x \<and> shares_unit bs k (r, c)) \<or> clashes b bs rest k x)" for x
        using False by (auto simp: clashes_def)
      show "((\<lambda>(k, d). (k, filter (\<lambda>x. \<not> clashes b bs rest k x) d)) \<circ>
              (\<lambda>(k, d). (k, if shares_unit bs k (r, c) \<and> ?x \<in> set d then remove1 ?x d else d))) p
          = (\<lambda>(k, d). (k, filter (\<lambda>x. \<not> clashes b bs ((r, c) # rest) k x) d)) p"
        unfolding kd using dd by (auto simp: cl remove1_filter intro: filter_cong)
    qed
    ultimately show ?thesis using at False rc by simp
  qed
qed

lemma covers_default: "covers (replicate n (replicate n 0)) n"
  by (auto simp: covers_def cells_set in_range_def)

lemma init_closed:
  assumes "0 \<le> sz" and "covers (given_board (nat sz) initial) (nat sz)"
  shows "SudokuCSP_init sz initial =
     Inr (\<lparr>size' = nat sz, box_size = isqrt (nat sz),
           variables = filter (\<lambda>k. cell_value (given_board (nat sz) initial) k = 0) (cells (nat sz)),
           initial_domains =
             map (\<lambda>k. (k, filter (\<lambda>x. \<not> clashes (given_board (nat sz) initial) (isqrt (nat sz))
                                          (cells (nat sz)) k x) [1..int (nat sz)]))
               (filter (\<lambda>k. cell_value (given_board (nat sz) initial) k = 0) (cells (nat sz))),
           initial_board = given_board (nat sz) initial\<rparr>, reset)"
proof -
  let ?n = "nat sz"
  let ?b = "given_board ?n initial"
  let ?zs = "filter (\<lambda>k. cell_value ?b k = 0) (cells ?n)"
  let ?d0 = "map (\<lambda>k. (k, [1..int ?n])) ?zs"
  have b: "(case initial of None \<Rightarrow> replicate ?n (replicate ?n 0) | Some given \<Rightarrow> map (\<lambda>row. row) given) = ?b"
    by (simp add: given_board_def split: option.splits)
  have rng: "\<forall>k \<in> set (cells ?n). in_range ?b k" using assms(2) by (simp add: covers_def)
  have "foldl (\<lambda>d k. AList.update k [1..int ?n] d) [] ?zs = [] @ ?d0"
    by (rule foldl_update_fresh) (simp_all add: distinct_cells)
  then have s: "setup_variables ?b ?n (cells ?n) ([], []) = Inr (?zs, ?d0)"
    using setup_variables_closed [OF rng, of ?n "[]" "[]"] by simp
  have pos: "0 < isqrt ?n \<or> cells ?n = []"
    by (cases "?n = 0") (simp_all add: cells_def isqrt_pos)
  have "\<forall>(k, d) \<in> set ?d0. distinct d" by auto
  from prune_initial_closed [OF pos rng this]
  have p: "prune_initial ?b (isqrt ?n) (cells ?n) ?d0 =
     Inr (map (\<lambda>k. (k, filter (\<lambda>x. \<not> clashes ?b (isqrt ?n) (cells ?n) k x) [1..int ?n])) ?zs)"
    by (simp add: comp_def)
  show ?thesis
    unfolding SudokuCSP_init_def Let_def b using assms(1) s p by simp
qed

lemma init_Inr:
  assumes "SudokuCSP_init sz initial = Inr (csp, st)"
  shows "0 \<le> sz \<and> covers (given_board (nat sz) initial) (nat sz)"
proof -
  let ?n = "nat sz"
  have b: "(case initial of None \<Rightarrow> replicate ?n (replicate ?n 0) | Some given \<Rightarrow> map (\<lambda>row. row) given)
      = given_board ?n initial"
    by (simp add: given_board_def split: option.splits)
  from assms have sz: "0 \<le> sz" by (auto simp: SudokuCSP_init_def split: if_splits)
  from assms sz obtain res where
    "setup_variables (given_board ?n initial) ?n (cells ?n) ([], []) = Inr res"
    unfolding SudokuCSP_init_def Let_def b by (auto split: sum.splits)
  from setup_variables_Inr [OF this] sz show ?thesis by (simp add: covers_def)
qed

section \<open>Facts about the consistency check\<close>

lemma same_unit_Inr: "same_unit bs k k' = Inr b \<Longrightarrow> b = shares_unit bs k k'"
  by (auto simp: same_unit_def shares_unit_def split: if_splits)

lemma shares_unit_sym: "shares_unit bs k k' = shares_unit bs k' k"
  by (auto simp: shares_unit_def)

lemma box_range:
  assumes "0 < bs"
  shows "((q div bs) * bs \<le> r \<and> r < (q div bs) * bs + bs) = (r div bs = q div (bs::nat))"
proof
  assume h: "(q div bs) * bs \<le> r \<and> r < (q div bs) * bs + bs"
  show "r div bs = q div bs"
    by (rule div_nat_eqI) (use h in \<open>simp_all add: mult.commute\<close>)
next
  assume h: "r div bs = q div bs"
  have "(r div bs) * bs \<le> r" by simp
  moreover have "r < (r div bs) * bs + bs"
    using assms by (metis add.commute dividend_less_times_div mult.commute)
  ultimately show "(q div bs) * bs \<le> r \<and> r < (q div bs) * bs + bs" using h by simp
qed

lemma is_consistent_closed:
  assumes "0 < box_size csp"
    and "\<forall>k \<in> fst ` set a. fst k < size' csp \<and> snd k < size' csp"
  shows "is_consistent csp var v a =
           Inr (\<not> (\<exists>k. map_of a k = Some v \<and> shares_unit (box_size csp) k var))"
proof -
  let ?bs = "box_size csp" and ?n = "size' csp"
  have grid: "fst k < ?n \<and> snd k < ?n" if "map_of a k = Some v" for k
    using that assms(2) by (metis domI dom_map_of_conv_image_fst)
  have row: "(\<exists>c \<in> set [0..<?n]. map_of a (fst var, c) = Some v)
      = (\<exists>k. map_of a k = Some v \<and> fst k = fst var)"
    using grid by force
  have col: "(\<exists>r \<in> set [0..<?n]. map_of a (r, snd var) = Some v)
      = (\<exists>k. map_of a k = Some v \<and> snd k = snd var)"
    using grid by force
  have box: "(\<exists>r \<in> set [(fst var div ?bs) * ?bs..<(fst var div ?bs) * ?bs + ?bs].
               \<exists>c \<in> set [(snd var div ?bs) * ?bs..<(snd var div ?bs) * ?bs + ?bs].
                 map_of a (r, c) = Some v)
      = (\<exists>k. map_of a k = Some v \<and> fst k div ?bs = fst var div ?bs \<and> snd k div ?bs = snd var div ?bs)"
    using box_range [OF assms(1)] by (simp add: Bex_def) force
  show ?thesis
    unfolding is_consistent_def Let_def row col box using assms(1)
    by (auto simp: shares_unit_def)
qed

section \<open>Facts about forward checking\<close>

lemma forward_check_loop_fail:
  "forward_check_loop bs var v ks nd rm = Inr (None, rm') \<Longrightarrow>
   \<exists>k \<in> set ks. k \<noteq> var \<and> shares_unit bs k var \<and> (\<exists>d. map_of nd k = Some d \<and> set d \<subseteq> {v})"
proof (induction ks arbitrary: nd rm)
  case Nil
  then show ?case by simp
next
  case (Cons k ks)
  show ?case
  proof (cases "k = var")
    case True
    with Cons show ?thesis by auto
  next
    case False
    from Cons.prems False obtain b where b: "same_unit bs k var = Inr b"
      by (auto split: sum.splits)
    show ?thesis
    proof (cases b)
      case False
      with Cons b \<open>k \<noteq> var\<close> show ?thesis by auto
    next
      case True
      then have sh: "shares_unit bs k var" using same_unit_Inr [OF b] by simp
      from Cons.prems \<open>k \<noteq> var\<close> b True obtain d where d: "map_of nd k = Some d"
        by (auto split: option.splits)
      show ?thesis
      proof (cases "set d \<subseteq> {v}")
        case True
        with sh d \<open>k \<noteq> var\<close> show ?thesis by auto
      next
        case nsub: False
        then obtain x where x: "x \<in> set d" "x \<noteq> v" by auto
        have ne: "remove1 v d \<noteq> []" "d \<noteq> []"
        proof -
          show "remove1 v d \<noteq> []"
          proof
            assume "remove1 v d = []"
            then have "x \<notin> set (remove1 v d)" by (simp del: in_set_remove1)
            with x show False by simp
          qed
          show "d \<noteq> []" using x by auto
        qed
        show ?thesis
        proof (cases "v \<in> set d")
          case False
          with Cons.prems \<open>k \<noteq> var\<close> b True d ne
          have "forward_check_loop bs var v ks nd rm = Inr (None, rm')" by simp
          from Cons.IH [OF this] show ?thesis by auto
        next
          case vin: True
          with Cons.prems \<open>k \<noteq> var\<close> b True d ne obtain r where
            "forward_check_loop bs var v ks (AList.update k (remove1 v d) nd) (AList.update k (r @ [v]) rm)
               = Inr (None, rm')"
            by (auto split: option.splits simp: Let_def)
          from Cons.IH [OF this] obtain k' d' where k': "k' \<in> set ks" "k' \<noteq> var" "shares_unit bs k' var"
            "map_of (AList.update k (remove1 v d) nd) k' = Some d'" "set d' \<subseteq> {v}"
            by auto
          have "\<exists>d''. map_of nd k' = Some d'' \<and> set d'' \<subseteq> {v}"
          proof (cases "k' = k")
            case True
            with k' have "d' = remove1 v d" by (simp add: update_conv')
            with k'(5) have "set d \<subseteq> {v}"
              using in_set_remove1 [of _ v d] by blast
            with nsub show ?thesis by simp
          next
            case False
            with k' show ?thesis by (simp add: update_conv')
          qed
          with k' show ?thesis by auto
        qed
      qed
    qed
  qed
qed

lemma set_update_subset: "set (AList.update k x al) \<subseteq> insert (k, x) (set al)"
  by (induction al) auto

lemma forward_check_loop_ok:
  assumes "forward_check_loop bs var v ks nd rm = Inr (Some nd', rm')"
    and "\<forall>(k, d) \<in> set nd. distinct d"
  shows "map fst nd' = map fst nd \<and> (\<forall>(k, d) \<in> set nd'. distinct d) \<and>
     (\<forall>k. map_of nd' k =
        (if k \<in> set ks \<and> k \<noteq> var \<and> shares_unit bs k var
         then map_option (remove1 v) (map_of nd k) else map_of nd k)) \<and>
     (\<forall>k \<in> set ks. k \<noteq> var \<and> shares_unit bs k var \<longrightarrow>
        (\<exists>d. map_of nd k = Some d \<and> remove1 v d \<noteq> []))"
  using assms
proof (induction ks arbitrary: nd rm)
  case Nil
  then show ?case by simp
next
  case (Cons k ks)
  show ?case
  proof (cases "k = var")
    case True
    with Cons.prems have "forward_check_loop bs var v ks nd rm = Inr (Some nd', rm')" by simp
    from Cons.IH [OF this Cons.prems(2)] True show ?thesis by auto
  next
    case False
    from Cons.prems False obtain b where b: "same_unit bs k var = Inr b"
      by (auto split: sum.splits)
    show ?thesis
    proof (cases b)
      case False
      then have nsh: "\<not> shares_unit bs k var" using same_unit_Inr [OF b] by simp
      from Cons.prems \<open>k \<noteq> var\<close> b False
      have "forward_check_loop bs var v ks nd rm = Inr (Some nd', rm')" by simp
      from Cons.IH [OF this Cons.prems(2)] nsh show ?thesis by auto
    next
      case True
      then have sh: "shares_unit bs k var" using same_unit_Inr [OF b] by simp
      from Cons.prems \<open>k \<noteq> var\<close> b True obtain d where d: "map_of nd k = Some d"
        by (auto split: option.splits)
      then have dd: "distinct d" using Cons.prems(2) by (auto dest: map_of_SomeD)
      show ?thesis
      proof (cases "v \<in> set d")
        case False
        then have r1: "remove1 v d = d" by (simp add: remove1_idem)
        from Cons.prems \<open>k \<noteq> var\<close> b True d False
        have ne: "d \<noteq> []" and run: "forward_check_loop bs var v ks nd rm = Inr (Some nd', rm')"
          by (auto split: if_splits)
        from Cons.IH [OF run Cons.prems(2)] d r1 ne sh show ?thesis by auto
      next
        case vin: True
        let ?nd1 = "AList.update k (remove1 v d) nd"
        from Cons.prems \<open>k \<noteq> var\<close> b True d vin obtain r where
          ne: "remove1 v d \<noteq> []" and
          run: "forward_check_loop bs var v ks ?nd1 (AList.update k (r @ [v]) rm) = Inr (Some nd', rm')"
          by (auto split: option.splits if_splits simp: Let_def)
        have d1: "\<forall>(k, d) \<in> set ?nd1. distinct d"
          using Cons.prems(2) dd set_update_subset [of k "remove1 v d" nd] by auto
        have "(k, d) \<in> set nd" using d by (rule map_of_SomeD)
        then have "k \<in> set (map fst nd)" by force
        then have keys: "map fst ?nd1 = map fst nd" by (simp add: update_keys)
        have idem: "remove1 v (remove1 v d) = remove1 v d"
          using dd by (simp add: remove1_idem)
        have m1: "map_of ?nd1 k' = (if k' = k then Some (remove1 v d) else map_of nd k')" for k'
          by (simp add: update_conv')
        note ih = Cons.IH [OF run d1]
        from ih have c1: "map fst nd' = map fst nd" using keys by simp
        from ih have c2: "\<forall>(k, d) \<in> set nd'. distinct d" by blast
        from ih have ih3: "map_of nd' k' =
          (if k' \<in> set ks \<and> k' \<noteq> var \<and> shares_unit bs k' var
           then map_option (remove1 v) (map_of ?nd1 k') else map_of ?nd1 k')" for k'
          by blast
        have c3: "map_of nd' k' =
          (if k' \<in> set (k # ks) \<and> k' \<noteq> var \<and> shares_unit bs k' var
           then map_option (remove1 v) (map_of nd k') else map_of nd k')" for k'
        proof (cases "k' = k")
          case True
          then show ?thesis unfolding ih3 m1 using d idem sh \<open>k \<noteq> var\<close> by simp
        next
          case False
          then show ?thesis unfolding ih3 m1 by simp
        qed
        from ih have ih4: "k' \<in> set ks \<Longrightarrow> k' \<noteq> var \<Longrightarrow> shares_unit bs k' var \<Longrightarrow>
           \<exists>d. map_of ?nd1 k' = Some d \<and> remove1 v d \<noteq> []" for k'
          by blast
        have c4: "\<exists>d. map_of nd k' = Some d \<and> remove1 v d \<noteq> []"
          if "k' \<in> set (k # ks)" "k' \<noteq> var" "shares_unit bs k' var" for k'
        proof (cases "k' = k")
          case True
          then show ?thesis using d ne by simp
        next
          case False
          with that ih4 [of k'] show ?thesis unfolding m1 by simp
        qed
        from c1 c2 c3 c4 show ?thesis by blast
      qed
    qed
  qed
qed

lemma copy_dict: "map (\<lambda>(k, d). (k, d)) doms = doms"
  by (induction doms) auto

lemma forward_check_loop_Inr:
  assumes "0 < bs" "set ks - {var} \<subseteq> fst ` set nd" "set ks - {var} \<subseteq> fst ` set rm"
  shows "\<exists>res. forward_check_loop bs var v ks nd rm = Inr res"
  using assms
proof (induction ks arbitrary: nd rm)
  case Nil
  then show ?case by simp
next
  case (Cons k ks)
  have rest: "set ks - {var} \<subseteq> fst ` set nd" "set ks - {var} \<subseteq> fst ` set rm"
    using Cons.prems by auto
  show ?case
  proof (cases "k = var \<or> \<not> shares_unit bs k var")
    case True
    then show ?thesis using Cons.IH [OF Cons.prems(1) rest] Cons.prems(1)
      by (auto simp: same_unit_pos)
  next
    case False
    then have kv: "k \<noteq> var" and sh: "shares_unit bs k var" by auto
    have "k \<in> fst ` set nd" "k \<in> fst ` set rm" using kv Cons.prems(2,3) by auto
    then have "map_of nd k \<noteq> None" "map_of rm k \<noteq> None"
      by (simp_all add: map_of_eq_None_iff)
    then obtain d r where d: "map_of nd k = Some d" and r: "map_of rm k = Some r" by auto
    let ?nd1 = "AList.update k (remove1 v d) nd" and ?rm1 = "AList.update k (r @ [v]) rm"
    have step: "forward_check_loop bs var v (k # ks) nd rm =
       (if v \<in> set d
        then (if remove1 v d = [] then Inr (None, ?rm1)
              else forward_check_loop bs var v ks ?nd1 ?rm1)
        else if d = [] then Inr (None, rm)
        else forward_check_loop bs var v ks nd rm)"
      using kv sh d r Cons.prems(1) by (simp add: same_unit_pos Let_def)
    have u: "set ks - {var} \<subseteq> fst ` set ?nd1" "set ks - {var} \<subseteq> fst ` set ?rm1"
      using rest by (auto simp: dom_update)
    from Cons.IH [OF Cons.prems(1) u] Cons.IH [OF Cons.prems(1) rest]
    show ?thesis unfolding step by auto
  qed
qed

lemma forward_check_Inr:
  assumes "0 < box_size csp" "set (variables csp) \<subseteq> fst ` set doms"
  shows "\<exists>res. forward_check csp var v doms = Inr res"
  unfolding forward_check_def
proof (rule forward_check_loop_Inr [OF assms(1)])
  show "set (variables csp) - {var} \<subseteq> fst ` set (AList.update var [v] (map (\<lambda>(k, d). (k, d)) doms))"
    using assms(2) by (auto simp: dom_update copy_dict)
  show "set (variables csp) - {var} \<subseteq> fst ` set (map (\<lambda>(k, d). (k, [])) doms)"
    using assms(2) by force
qed

lemma forward_check_fail:
  assumes "forward_check csp var v doms = Inr (None, rm)"
  shows "\<exists>k \<in> set (variables csp). k \<noteq> var \<and> shares_unit (box_size csp) k var \<and>
           (\<exists>d. map_of doms k = Some d \<and> set d \<subseteq> {v})"
proof -
  from forward_check_loop_fail [OF assms [unfolded forward_check_def]]
  obtain k d where k: "k \<in> set (variables csp)" "k \<noteq> var" "shares_unit (box_size csp) k var"
    "map_of (AList.update var [v] doms) k = Some d" "set d \<subseteq> {v}"
    unfolding copy_dict by blast
  then have "map_of doms k = Some d" by (simp add: update_conv')
  with k show ?thesis by blast
qed

lemma forward_check_ok:
  assumes "forward_check csp var v doms = Inr (Some nd, rm)" "\<forall>(k, d) \<in> set doms. distinct d"
  shows "map fst nd = map fst (AList.update var [v] doms)"
    and "\<forall>(k, d) \<in> set nd. distinct d"
    and "map_of nd var = Some [v]"
    and "k \<in> set (variables csp) \<Longrightarrow> k \<noteq> var \<Longrightarrow> shares_unit (box_size csp) k var \<Longrightarrow>
           \<exists>d. map_of doms k = Some d \<and> map_of nd k = Some (remove1 v d) \<and> remove1 v d \<noteq> [] \<and> v \<notin> set (remove1 v d)"
    and "k \<noteq> var \<Longrightarrow> \<not> (k \<in> set (variables csp) \<and> shares_unit (box_size csp) k var) \<Longrightarrow>
           map_of nd k = map_of doms k"
proof -
  let ?nd0 = "AList.update var [v] doms"
  have d0: "\<forall>(k, d) \<in> set ?nd0. distinct d"
    using assms(2) set_update_subset [of var "[v]" doms] by auto
  note ok = forward_check_loop_ok [OF assms(1) [unfolded forward_check_def copy_dict] d0]
  from ok show "map fst nd = map fst ?nd0" by blast
  from ok show "\<forall>(k, d) \<in> set nd. distinct d" by blast
  from ok have m: "map_of nd k' =
        (if k' \<in> set (variables csp) \<and> k' \<noteq> var \<and> shares_unit (box_size csp) k' var
         then map_option (remove1 v) (map_of ?nd0 k') else map_of ?nd0 k')" for k'
    by blast
  show "map_of nd var = Some [v]" unfolding m by (simp add: update_conv')
  from ok have e: "k' \<in> set (variables csp) \<Longrightarrow> k' \<noteq> var \<Longrightarrow> shares_unit (box_size csp) k' var \<Longrightarrow>
        \<exists>d. map_of ?nd0 k' = Some d \<and> remove1 v d \<noteq> []" for k'
    by blast
  { assume k: "k \<in> set (variables csp)" "k \<noteq> var" "shares_unit (box_size csp) k var"
    from e [OF k] obtain d where d: "map_of ?nd0 k = Some d" "remove1 v d \<noteq> []" by blast
    then have d': "map_of doms k = Some d" using k(2) by (simp add: update_conv')
    then have "distinct d" using assms(2) by (auto dest: map_of_SomeD)
    then have "v \<notin> set (remove1 v d)" by simp
    moreover have "map_of nd k = Some (remove1 v d)" unfolding m using k d by simp
    ultimately show "\<exists>d. map_of doms k = Some d \<and> map_of nd k = Some (remove1 v d) \<and> remove1 v d \<noteq> [] \<and> v \<notin> set (remove1 v d)"
      using d d' by blast }
  { assume "k \<noteq> var" "\<not> (k \<in> set (variables csp) \<and> shares_unit (box_size csp) k var)"
    then show "map_of nd k = map_of doms k" unfolding m by (auto simp: update_conv') }
qed

section \<open>Facts about the variable ordering\<close>

lemma count_loop_Inr:
  "count_loop bs var a ks c = Inr n \<Longrightarrow>
   n = c + length (filter (\<lambda>k. map_of a k = None \<and> k \<noteq> var \<and> shares_unit bs k var) ks)"
proof (induction ks arbitrary: c)
  case Nil
  then show ?case by simp
next
  case (Cons k ks)
  show ?case
  proof (cases "map_of a k = None \<and> k \<noteq> var")
    case False
    with Cons.prems have "count_loop bs var a ks c = Inr n" by auto
    from Cons.IH [OF this] False show ?thesis by auto
  next
    case True
    with Cons.prems obtain b where b: "same_unit bs k var = Inr b"
      and run: "count_loop bs var a ks (if b then c + 1 else c) = Inr n"
      by (auto split: sum.splits)
    from Cons.IH [OF run] same_unit_Inr [OF b] True show ?thesis by auto
  qed
qed

lemma count_loop_pos:
  "0 < bs \<Longrightarrow> \<exists>n. count_loop bs var a ks c = Inr n"
  by (induction ks arbitrary: c) (auto simp: same_unit_pos)

lemma count_constraints_Inr:
  assumes "count_constraints csp var a = Inr n" "distinct (variables csp)"
  shows "n = degree csp a var"
proof -
  from count_loop_Inr [OF assms(1) [unfolded count_constraints_def]]
  have "n = length (filter (\<lambda>k. map_of a k = None \<and> k \<noteq> var \<and> shares_unit (box_size csp) k var)
                      (variables csp))" by simp
  also have "\<dots> = card ({k. map_of a k = None \<and> k \<noteq> var \<and> shares_unit (box_size csp) k var}
                        \<inter> set (variables csp))"
    using assms(2) by (rule distinct_length_filter)
  also have "\<dots> = degree csp a var" unfolding degree_def by (rule arg_cong [of _ _ card]) auto
  finally show ?thesis .
qed

lemma mrv_keys_Inr:
  assumes "mrv_keys csp doms a vs = Inr ks" "distinct (variables csp)"
  shows "\<forall>key \<in> set ks. \<exists>d. map_of doms (fst key) = Some d \<and>
            snd key = (length d, - int (degree csp a (fst key)))"
  using assms(1)
proof (induction vs arbitrary: ks)
  case Nil
  then show ?case by simp
next
  case (Cons v vs)
  from Cons.prems obtain d n ks' where d: "map_of doms v = Some d"
    and n: "count_constraints csp v a = Inr n"
    and ks': "mrv_keys csp doms a vs = Inr ks'" and ks: "ks = (v, length d, - int n) # ks'"
    by (auto split: option.splits sum.splits)
  from Cons.IH [OF ks'] count_constraints_Inr [OF n assms(2)] d show ?case
    unfolding ks by simp
qed

lemma mrv_keys_pos:
  assumes "0 < box_size csp" "\<forall>v \<in> set vs. map_of doms v \<noteq> None"
  shows "\<exists>ks. mrv_keys csp doms a vs = Inr ks"
  using assms(2)
proof (induction vs)
  case Nil
  then show ?case by simp
next
  case (Cons v vs)
  from Cons.prems obtain d where d: "map_of doms v = Some d" by auto
  from count_loop_pos [OF assms(1)] obtain n where n: "count_constraints csp v a = Inr n"
    unfolding count_constraints_def by blast
  from Cons.IH Cons.prems obtain ks where "mrv_keys csp doms a vs = Inr ks" by auto
  with d n show ?case by simp
qed

lemma min_by_key_least:
  "\<forall>x \<in> set (k # ks). \<not> key_less (snd x) (snd (min_by_key k ks))"
proof (induction ks arbitrary: k)
  case Nil
  then show ?case by (simp add: key_less_def)
next
  case (Cons x xs)
  let ?b = "if key_less (snd x) (snd k) then x else k"
  let ?m = "min_by_key ?b xs"
  have ih: "\<forall>y \<in> set (?b # xs). \<not> key_less (snd y) (snd ?m)" by (rule Cons.IH)
  then have b: "\<not> key_less (snd ?b) (snd ?m)" by simp
  have "\<not> key_less (snd k) (snd ?m) \<and> \<not> key_less (snd x) (snd ?m)"
    using b by (auto simp: key_less_def split: if_splits)
  with ih show ?case by simp
qed

lemma select_unassigned_var_least:
  assumes "0 < box_size csp" "distinct (variables csp)" "unassigned csp a \<noteq> []"
    "set (unassigned csp a) \<subseteq> fst ` set doms"
  shows "\<exists>var d. select_unassigned_var csp doms a = Inr var \<and> var \<in> set (variables csp) \<and>
           map_of a var = None \<and> map_of doms var = Some d \<and>
           (\<forall>u \<in> set (variables csp). map_of a u = None \<longrightarrow>
              (\<exists>du. map_of doms u = Some du \<and> length d \<le> length du \<and>
                    (length du = length d \<longrightarrow> degree csp a u \<le> degree csp a var)))"
proof -
  have "\<forall>v \<in> set (unassigned csp a). map_of doms v \<noteq> None"
    using assms(4) by (auto simp: map_of_eq_None_iff)
  from mrv_keys_pos [OF assms(1) this] obtain ks where
    ks: "mrv_keys csp doms a (unassigned csp a) = Inr ks" by blast
  have fst_ks: "map fst ks = unassigned csp a" by (rule mrv_keys_fst [OF ks])
  with assms(3) obtain k ks' where kks: "ks = k # ks'" by (cases ks) auto
  obtain u us where uus: "unassigned csp a = u # us" using assms(3) by (cases "unassigned csp a") auto
  let ?m = "min_by_key k ks'"
  have sel: "select_unassigned_var csp doms a = Inr (fst ?m)"
    using ks unfolding select_unassigned_var_def kks uus by simp
  have m_in: "?m \<in> set ks" unfolding kks by (rule min_by_key_mem)
  then have "fst ?m \<in> set (map fst ks)" by (metis image_eqI set_map)
  then have m_un: "fst ?m \<in> set (unassigned csp a)" unfolding fst_ks .
  from mrv_keys_Inr [OF ks assms(2)] m_in obtain d where
    d: "map_of doms (fst ?m) = Some d" "snd ?m = (length d, - int (degree csp a (fst ?m)))"
    by blast
  have least: "\<exists>du. map_of doms u = Some du \<and> length d \<le> length du \<and>
                    (length du = length d \<longrightarrow> degree csp a u \<le> degree csp a (fst ?m))"
    if "u \<in> set (variables csp)" "map_of a u = None" for u
  proof -
    from that have "u \<in> set (map fst ks)" unfolding fst_ks unassigned_def by simp
    then obtain key where key: "key \<in> set ks" "fst key = u" by auto
    from mrv_keys_Inr [OF ks assms(2)] key obtain du where
      du: "map_of doms u = Some du" "snd key = (length du, - int (degree csp a u))"
      by blast
    from min_by_key_least [of k ks'] key(1) have "\<not> key_less (snd key) (snd ?m)"
      unfolding kks by blast
    then show ?thesis unfolding du(2) d(2) using du(1) by (auto simp: key_less_def)
  qed
  from sel m_un d(1) least show ?thesis unfolding unassigned_def by auto
qed

section \<open>Facts about the search\<close>

lemma backtrack_from_unfold:
  "backtrack_from csp doms a st =
     (let st1 = st\<lparr>nodes := nodes st + 1\<rparr> in
      if length a = length (variables csp)
      then \<lparr>events = [Solution a], final = st1\<lparr>solutions := solutions st1 + 1\<rparr>, err = None\<rparr>
      else
        (case select_unassigned_var csp doms a of
           Inl e \<Rightarrow> \<lparr>events = [], final = st1, err = Some e\<rparr>
         | Inr var \<Rightarrow>
             (case map_of doms var of
                None \<Rightarrow> \<lparr>events = [], final = st1, err = Some KeyError\<rparr>
              | Some d \<Rightarrow>
                  (case order_domain_values csp var doms a of
                     Inl e \<Rightarrow> \<lparr>events = [Mrv var d], final = st1, err = Some e\<rparr>
                   | Inr lcv_order \<Rightarrow>
                       yield [Mrv var d, Lcv var lcv_order]
                         (for_values (try_value csp var doms a (backtrack_from csp)) lcv_order st1)))))"
  unfolding try_value_def [abs_def] by (rule backtrack_from.simps)

lemma backtrack_from_leaf:
  "length a = length (variables csp) \<Longrightarrow>
   backtrack_from csp doms a st =
     \<lparr>events = [Solution a],
      final = st\<lparr>nodes := nodes st + 1, solutions := solutions st + 1\<rparr>, err = None\<rparr>"
  by (subst backtrack_from_unfold) (simp add: Let_def)

lemma backtrack_from_branch:
  "length a \<noteq> length (variables csp) \<Longrightarrow> select_unassigned_var csp doms a = Inr var \<Longrightarrow>
   map_of doms var = Some d \<Longrightarrow> order_domain_values csp var doms a = Inr lcv \<Longrightarrow>
   backtrack_from csp doms a st =
     yield [Mrv var d, Lcv var lcv]
       (for_values (try_value csp var doms a (backtrack_from csp)) lcv (st\<lparr>nodes := nodes st + 1\<rparr>))"
  by (subst backtrack_from_unfold) (simp add: Let_def)

lemma backtrack_from_cases:
  obtains (leaf) "length a = length (variables csp)"
    "backtrack_from csp doms a st =
       \<lparr>events = [Solution a],
        final = st\<lparr>nodes := nodes st + 1, solutions := solutions st + 1\<rparr>, err = None\<rparr>"
  | (stuck) e es where "length a \<noteq> length (variables csp)"
    "backtrack_from csp doms a st =
       \<lparr>events = es, final = st\<lparr>nodes := nodes st + 1\<rparr>, err = Some e\<rparr>"
    "es = [] \<or> (\<exists>var d. es = [Mrv var d])"
    "select_unassigned_var csp doms a = Inl e \<or>
     (\<exists>var. select_unassigned_var csp doms a = Inr var \<and>
        (map_of doms var = None \<or> order_domain_values csp var doms a = Inl e))"
  | (branch) var d lcv where "length a \<noteq> length (variables csp)"
    "select_unassigned_var csp doms a = Inr var" "map_of doms var = Some d"
    "order_domain_values csp var doms a = Inr lcv"
    "backtrack_from csp doms a st =
       yield [Mrv var d, Lcv var lcv]
         (for_values (try_value csp var doms a (backtrack_from csp)) lcv (st\<lparr>nodes := nodes st + 1\<rparr>))"
proof (cases "length a = length (variables csp)")
  case True
  then show ?thesis using leaf backtrack_from_leaf by blast
next
  case False
  show ?thesis
  proof (cases "select_unassigned_var csp doms a")
    case (Inl e)
    with False have "backtrack_from csp doms a st =
       \<lparr>events = [], final = st\<lparr>nodes := nodes st + 1\<rparr>, err = Some e\<rparr>"
      by (subst backtrack_from_unfold) (simp add: Let_def)
    with False Inl show ?thesis using stuck by blast
  next
    case (Inr var)
    show ?thesis
    proof (cases "map_of doms var")
      case None
      with False Inr have "backtrack_from csp doms a st =
         \<lparr>events = [], final = st\<lparr>nodes := nodes st + 1\<rparr>, err = Some KeyError\<rparr>"
        by (subst backtrack_from_unfold) (simp add: Let_def)
      with False Inr None show ?thesis using stuck by blast
    next
      case (Some d)
      show ?thesis
      proof (cases "order_domain_values csp var doms a")
        case (Inl e)
        with False Inr Some have "backtrack_from csp doms a st =
           \<lparr>events = [Mrv var d], final = st\<lparr>nodes := nodes st + 1\<rparr>, err = Some e\<rparr>"
          by (subst backtrack_from_unfold) (simp add: Let_def)
        with False Inr Inl show ?thesis using stuck by blast
      next
        case lcv: (Inr lcv)
        from backtrack_from_branch [OF False Inr Some lcv] False Inr Some lcv
        show ?thesis using branch by blast
      qed
    qed
  qed
qed

text \<open>The same for one round of the loop.\<close>

lemma try_value_cases:
  obtains (stuck) e es where "try_value csp var doms a rec v s = \<lparr>events = es, final = s, err = Some e\<rparr>"
    "es = [] \<or> es = [Assign var v (AList.update var v a)]"
    "is_consistent csp var v a = Inl e \<or> forward_check csp var v doms = Inl e"
  | (pruned) "is_consistent csp var v a = Inr False"
    "try_value csp var doms a rec v s = \<lparr>events = [Pruned var v], final = s, err = None\<rparr>"
  | (wipeout) rm where "is_consistent csp var v a = Inr True"
    "forward_check csp var v doms = Inr (None, rm)"
    "try_value csp var doms a rec v s =
       \<lparr>events = [Assign var v (AList.update var v a), Fc_fail var v rm,
                  Unassign var (AList.delete var (AList.update var v a))],
        final = s\<lparr>backtracks := backtracks s + 1\<rparr>, err = None\<rparr>"
  | (descend_stuck) nd rm where "is_consistent csp var v a = Inr True"
    "forward_check csp var v doms = Inr (Some nd, rm)"
    "err (rec nd (AList.update var v a) s) \<noteq> None"
    "try_value csp var doms a rec v s =
       yield [Assign var v (AList.update var v a), Fc_ok var v rm] (rec nd (AList.update var v a) s)"
  | (descend) nd rm where "is_consistent csp var v a = Inr True"
    "forward_check csp var v doms = Inr (Some nd, rm)"
    "err (rec nd (AList.update var v a) s) = None"
    "try_value csp var doms a rec v s =
       \<lparr>events = [Assign var v (AList.update var v a), Fc_ok var v rm]
                 @ events (rec nd (AList.update var v a) s)
                 @ [Unassign var (AList.delete var (AList.update var v a))],
        final = (final (rec nd (AList.update var v a) s))
                  \<lparr>backtracks := backtracks (final (rec nd (AList.update var v a) s)) + 1\<rparr>,
        err = None\<rparr>"
proof (cases "is_consistent csp var v a")
  case (Inl e)
  then have "try_value csp var doms a rec v s = \<lparr>events = [], final = s, err = Some e\<rparr>"
    by (simp add: try_value_def)
  with Inl show ?thesis using stuck by blast
next
  case (Inr b)
  show ?thesis
  proof (cases b)
    case False
    with Inr have "try_value csp var doms a rec v s = \<lparr>events = [Pruned var v], final = s, err = None\<rparr>"
      by (simp add: try_value_def)
    with Inr False show ?thesis using pruned by simp
  next
    case True
    from Inr True have ic: "is_consistent csp var v a = Inr True" by simp
    show ?thesis
    proof (cases "forward_check csp var v doms")
      case (Inl e)
      with ic have "try_value csp var doms a rec v s =
        \<lparr>events = [Assign var v (AList.update var v a)], final = s, err = Some e\<rparr>"
        by (simp add: try_value_def)
      with Inl show ?thesis using stuck by blast
    next
      case fc: (Inr res)
      obtain ndo rm where res: "res = (ndo, rm)" by (cases res)
      show ?thesis
      proof (cases ndo)
        case None
        with ic fc res show ?thesis using wipeout [of rm] by (simp add: try_value_def Let_def)
      next
        case (Some nd)
        show ?thesis
        proof (cases "err (rec nd (AList.update var v a) s) = None")
          case True
          with ic fc res Some show ?thesis using descend [of nd rm] by (simp add: try_value_def Let_def)
        next
          case False
          with ic fc res Some show ?thesis using descend_stuck [of nd rm]
            by (simp add: try_value_def Let_def)
        qed
      qed
    qed
  qed
qed

lemma mrv_keys_dom: "mrv_keys csp doms a vs = Inr ks \<Longrightarrow> \<forall>v \<in> set vs. map_of doms v \<noteq> None"
  by (induction vs arbitrary: ks) (auto split: option.splits sum.splits)

lemma select_has_domain:
  assumes "select_unassigned_var csp doms a = Inr var"
  shows "\<exists>d. map_of doms var = Some d"
proof -
  from assms obtain ks where "mrv_keys csp doms a (unassigned csp a) = Inr ks"
    by (auto simp: select_unassigned_var_def split: list.splits sum.splits)
  from mrv_keys_dom [OF this] select_unassigned [OF assms] show ?thesis by auto
qed

lemma backtrack_from_induct [case_names node]:
  fixes P :: "domains \<Rightarrow> assignment \<Rightarrow> stats \<Rightarrow> bool"
  assumes "\<And>doms a st.
     (\<And>var lcv v nd rm s. length a \<noteq> length (variables csp) \<Longrightarrow>
        select_unassigned_var csp doms a = Inr var \<Longrightarrow>
        order_domain_values csp var doms a = Inr lcv \<Longrightarrow> v \<in> set lcv \<Longrightarrow>
        is_consistent csp var v a = Inr True \<Longrightarrow>
        forward_check csp var v doms = Inr (Some nd, rm) \<Longrightarrow> P nd (AList.update var v a) s) \<Longrightarrow>
     P doms a st"
  shows "P doms a st"
proof -
  have "csp' = csp \<longrightarrow> P doms a st" for csp'
  proof (induction csp' doms a st rule: backtrack_from.induct)
    case (1 csp' doms a st)
    show ?case
    proof
      assume eq: "csp' = csp"
      show "P doms a st"
      proof (rule assms)
        fix var lcv v nd rm s
        assume f: "length a \<noteq> length (variables csp)" "select_unassigned_var csp doms a = Inr var"
          "order_domain_values csp var doms a = Inr lcv" "v \<in> set lcv"
          "is_consistent csp var v a = Inr True" "forward_check csp var v doms = Inr (Some nd, rm)"
        from select_has_domain [OF f(2)] obtain d where d: "map_of doms var = Some d" by blast
        note IH = "1.IH" [unfolded eq]
        from IH [OF refl f(1) f(2) d f(3) f(4) f(5) refl refl f(6) refl refl]
        show "P nd (AList.update var v a) s" by simp
      qed
    qed
  qed
  then show ?thesis by simp
qed

lemma count_events_append [simp]:
  "count_events p (xs @ ys) = count_events p xs + count_events p ys"
  by (simp add: count_events_def)

lemma count_events_Nil [simp]: "count_events p [] = 0"
  by (simp add: count_events_def)

lemma count_events_Cons [simp]:
  "count_events p (x # xs) = (if p x then 1 else 0) + count_events p xs"
  by (simp add: count_events_def)

lemma yield_simps [simp]:
  "events (yield es r) = es @ events r" "final (yield es r) = final r" "err (yield es r) = err r"
  by (simp_all add: yield_def)

lemma tally_for_values:
  assumes "\<And>v s. v \<in> set vs \<Longrightarrow> tally 0 s (body v s)"
  shows "tally 0 st (for_values body vs st)"
  using assms
proof (induction vs arbitrary: st)
  case Nil
  then show ?case by (simp add: tally_def)
next
  case (Cons v vs)
  have b: "tally 0 st (body v st)" using Cons.prems by simp
  have r: "tally 0 (final (body v st)) (for_values body vs (final (body v st)))"
    using Cons.IH Cons.prems by simp
  show ?case
  proof (cases "err (body v st) = None")
    case False
    with b show ?thesis by (simp add: Let_def)
  next
    case True
    with b r show ?thesis by (simp add: Let_def tally_def)
  qed
qed

lemma tally_try_value:
  assumes "\<And>nd rm. is_consistent csp var v a = Inr True \<Longrightarrow>
             forward_check csp var v doms = Inr (Some nd, rm) \<Longrightarrow>
             tally 1 s (rec nd (AList.update var v a) s)"
  shows "tally 0 s (try_value csp var doms a rec v s)"
proof (cases rule: try_value_cases [of csp var doms a rec v s])
  case (stuck e es)
  then show ?thesis by (auto simp: tally_def)
next
  case pruned
  then show ?thesis by (simp add: tally_def)
next
  case (wipeout rm)
  then show ?thesis by (simp add: tally_def)
next
  case (descend_stuck nd rm)
  with assms [of nd rm] show ?thesis by (auto simp: tally_def)
next
  case (descend nd rm)
  with assms [of nd rm] show ?thesis by (simp add: tally_def)
qed

lemma tally_backtrack_from: "tally 1 st (backtrack_from csp doms a st)"
proof (induction doms a st rule: backtrack_from_induct [where csp = csp])
  case (node doms a st)
  show ?case
  proof (cases rule: backtrack_from_cases [of a csp doms st])
    case leaf
    then show ?thesis by (simp add: tally_def)
  next
    case (stuck e es)
    then show ?thesis by (auto simp: tally_def)
  next
    case (branch var d lcv)
    have "tally 0 s (try_value csp var doms a (backtrack_from csp) v s)" if "v \<in> set lcv" for v s
      by (rule tally_try_value) (rule node [OF branch(1,2,4) that])
    then have "tally 0 (st\<lparr>nodes := nodes st + 1\<rparr>)
       (for_values (try_value csp var doms a (backtrack_from csp)) lcv (st\<lparr>nodes := nodes st + 1\<rparr>))"
      by (rule tally_for_values)
    then show ?thesis unfolding branch(5) by (simp add: tally_def)
  qed
qed

lemma readyD:
  assumes "ready csp doms a"
  shows "0 < box_size csp" "distinct (variables csp)" "set (variables csp) \<subseteq> fst ` set doms"
    "\<forall>(k, d) \<in> set doms. distinct d" "distinct (map fst a)" "fst ` set a \<subseteq> set (variables csp)"
  using assms unfolding ready_def by blast+

lemma eliminated_loop_pos:
  "0 < bs \<Longrightarrow> \<forall>k \<in> set ks. map_of doms k \<noteq> None \<Longrightarrow>
   \<exists>n. eliminated_loop bs var doms a v ks c = Inr n"
  by (induction ks arbitrary: c) (auto simp: same_unit_pos split: bool.splits)

lemma lcv_keys_pos:
  assumes "0 < box_size csp" "\<forall>k \<in> set (variables csp). map_of doms k \<noteq> None"
  shows "\<exists>ks. lcv_keys csp var doms a d = Inr ks"
proof (induction d)
  case Nil
  then show ?case by simp
next
  case (Cons v d)
  from eliminated_loop_pos [OF assms] obtain n where "eliminated_count csp var doms a v = Inr n"
    unfolding eliminated_count_def by blast
  with Cons show ?case by auto
qed

lemma lcv_keys_fst: "lcv_keys csp var doms a d = Inr ks \<Longrightarrow> map fst ks = d"
  by (induction d arbitrary: ks) (auto split: sum.splits)

lemma order_domain_values_mset:
  assumes "order_domain_values csp var doms a = Inr lcv"
  shows "\<exists>d. map_of doms var = Some d \<and> mset lcv = mset d"
proof -
  from assms obtain d ks where d: "map_of doms var = Some d"
    and ks: "lcv_keys csp var doms a d = Inr ks" and lcv: "lcv = map fst (sort_key snd ks)"
    by (auto simp: order_domain_values_def split: option.splits sum.splits)
  have "mset lcv = image_mset fst (mset (sort_key snd ks))" unfolding lcv by simp
  also have "\<dots> = mset (map fst ks)" by simp
  finally show ?thesis using d lcv_keys_fst [OF ks] by simp
qed

lemma order_domain_values_pos:
  assumes "0 < box_size csp" "set (variables csp) \<subseteq> fst ` set doms" "map_of doms var = Some d"
  shows "\<exists>lcv. order_domain_values csp var doms a = Inr lcv"
proof -
  have "\<forall>k \<in> set (variables csp). map_of doms k \<noteq> None"
    using assms(2) by (auto simp: map_of_eq_None_iff)
  from lcv_keys_pos [OF assms(1) this] obtain ks where "lcv_keys csp var doms a d = Inr ks" by blast
  with assms(3) show ?thesis by (simp add: order_domain_values_def)
qed

lemma is_consistent_pos:
  assumes "0 < box_size csp"
  shows "\<exists>b. is_consistent csp var v a = Inr b"
proof -
  have "is_consistent csp var v a = Inr False \<or> is_consistent csp var v a = Inr True"
    unfolding is_consistent_def Let_def using assms by simp
  then show ?thesis by blast
qed

lemma full_assignment:
  assumes "distinct (variables csp)" "distinct (map fst a)" "fst ` set a \<subseteq> set (variables csp)"
  shows "(length a = length (variables csp)) = (fst ` set a = set (variables csp))"
proof -
  have la: "length a = card (fst ` set a)"
    using assms(2) by (metis distinct_card length_map set_map)
  have lv: "length (variables csp) = card (set (variables csp))"
    using assms(1) by (simp add: distinct_card)
  show ?thesis
  proof
    assume "length a = length (variables csp)"
    with la lv have "card (fst ` set a) = card (set (variables csp))" by simp
    with assms(3) show "fst ` set a = set (variables csp)" by (simp add: card_subset_eq)
  next
    assume "fst ` set a = set (variables csp)"
    with la lv show "length a = length (variables csp)" by simp
  qed
qed

lemma unassigned_nonempty:
  assumes "ready csp doms a" "length a \<noteq> length (variables csp)"
  shows "unassigned csp a \<noteq> []"
proof
  assume "unassigned csp a = []"
  then have "\<forall>k \<in> set (variables csp). map_of a k \<noteq> None"
    by (auto simp: unassigned_def filter_empty_conv)
  then have "set (variables csp) \<subseteq> fst ` set a" by (auto simp: map_of_eq_None_iff)
  with readyD(6) [OF assms(1)] have "fst ` set a = set (variables csp)" by blast
  with full_assignment [OF readyD(2,5,6) [OF assms(1)]] assms(2) show False by simp
qed

lemma ready_select:
  assumes "ready csp doms a" "length a \<noteq> length (variables csp)"
  shows "\<exists>var d lcv. select_unassigned_var csp doms a = Inr var \<and> map_of doms var = Some d \<and>
           order_domain_values csp var doms a = Inr lcv"
proof -
  note r = readyD [OF assms(1)]
  have "set (unassigned csp a) \<subseteq> set (variables csp)" by (simp add: unassigned_def)
  with r(3) have un: "set (unassigned csp a) \<subseteq> fst ` set doms" by blast
  from select_unassigned_var_least [OF r(1,2) unassigned_nonempty [OF assms] un]
  obtain var d where vd: "select_unassigned_var csp doms a = Inr var" "map_of doms var = Some d"
    by blast
  from order_domain_values_pos [OF r(1,3) vd(2)]
  obtain lcv where "order_domain_values csp var doms a = Inr lcv" by blast
  with vd show ?thesis by blast
qed

lemma ready_step:
  assumes "ready csp doms a" "select_unassigned_var csp doms a = Inr var"
    "forward_check csp var v doms = Inr (Some nd, rm)"
  shows "ready csp nd (AList.update var v a)"
proof -
  note r = readyD [OF assms(1)]
  have var: "var \<in> set (variables csp)"
    using select_unassigned [OF assms(2)] by (simp add: unassigned_def)
  have "set (map fst nd) = set (map fst (AList.update var [v] doms))"
    using forward_check_ok(1) [OF assms(3) r(4)] by simp
  then have "fst ` set nd = insert var (fst ` set doms)" by (simp add: dom_update)
  with r(3) have "set (variables csp) \<subseteq> fst ` set nd" by blast
  moreover have "distinct (map fst (AList.update var v a))"
    using r(5) by (rule distinct_update)
  moreover have "fst ` set (AList.update var v a) \<subseteq> set (variables csp)"
    using r(6) var by (simp add: dom_update)
  ultimately show ?thesis
    unfolding ready_def using r(1,2) forward_check_ok(2) [OF assms(3) r(4)] by blast
qed

lemma err_for_values:
  assumes "\<And>v s. v \<in> set vs \<Longrightarrow> err (body v s) = None"
  shows "err (for_values body vs st) = None"
  using assms by (induction vs arbitrary: st) (simp_all add: Let_def)

lemma no_error:
  "ready csp doms a \<Longrightarrow> err (backtrack_from csp doms a st) = None"
proof (induction doms a st rule: backtrack_from_induct [where csp = csp])
  case (node doms a st)
  note rdy = node.prems
  show ?case
  proof (cases "length a = length (variables csp)")
    case True
    then show ?thesis by (simp add: backtrack_from_leaf)
  next
    case False
    from ready_select [OF rdy False] obtain var d lcv where
      sel: "select_unassigned_var csp doms a = Inr var" and d: "map_of doms var = Some d"
      and lcv: "order_domain_values csp var doms a = Inr lcv" by blast
    have bs: "0 < box_size csp" and cover: "set (variables csp) \<subseteq> fst ` set doms"
      using readyD [OF rdy] by blast+
    have "err (try_value csp var doms a (backtrack_from csp) v s) = None" if v: "v \<in> set lcv" for v s
    proof (cases rule: try_value_cases [of csp var doms a "backtrack_from csp" v s])
      case (stuck e es)
      with is_consistent_pos [OF bs, of var v a] forward_check_Inr [OF bs cover, of var v]
      show ?thesis by auto
    next
      case pruned
      then show ?thesis by simp
    next
      case (wipeout rm)
      then show ?thesis by simp
    next
      case (descend_stuck nd rm)
      from node.IH [OF False sel lcv v descend_stuck(1,2) ready_step [OF rdy sel descend_stuck(2)]]
        descend_stuck(3) show ?thesis by simp
    next
      case (descend nd rm)
      then show ?thesis by simp
    qed
    then have "err (for_values (try_value csp var doms a (backtrack_from csp)) lcv
                 (st\<lparr>nodes := nodes st + 1\<rparr>)) = None"
      by (rule err_for_values)
    then show ?thesis unfolding backtrack_from_branch [OF False sel d lcv] by simp
  qed
qed

section \<open>Facts about the engines the constructor builds\<close>

lemma map_of_tabulate: "map_of (map (\<lambda>k. (k, f k)) ks) k = (if k \<in> set ks then Some (f k) else None)"
  by (induction ks) auto

lemma default_domains_closed:
  "distinct vs \<Longrightarrow> set vs \<inter> fst ` set acc = {} \<Longrightarrow> \<forall>v \<in> set vs. map_of init v = Some (f v) \<Longrightarrow>
   default_domains init vs acc = Inr (acc @ map (\<lambda>k. (k, f k)) vs)"
proof (induction vs arbitrary: acc)
  case Nil
  then show ?case by simp
next
  case (Cons v vs)
  have "v \<notin> fst ` set acc" using Cons.prems(2) by auto
  then have u: "AList.update v (f v) acc = acc @ [(v, f v)]" by (rule update_fresh)
  have "set vs \<inter> fst ` set (acc @ [(v, f v)]) = {}" using Cons.prems(1,2) by auto
  from Cons.IH [OF _ this] Cons.prems u show ?case by simp
qed

text \<open>What the constructor built.\<close>

lemma built:
  assumes "SudokuCSP_init sz initial = Inr (csp, st)"
  shows "st = reset" "size' csp = nat sz" "box_size csp = isqrt (nat sz)"
    "variables csp = filter (\<lambda>k. cell_value (given_board (nat sz) initial) k = 0) (cells (nat sz))"
    "initial_domains csp =
       map (\<lambda>k. (k, filter (\<lambda>x. \<not> clashes (given_board (nat sz) initial) (box_size csp)
                                    (cells (nat sz)) k x) [1..int (nat sz)])) (variables csp)"
    "initial_board csp = given_board (nat sz) initial"
    "covers (given_board (nat sz) initial) (nat sz)"
proof -
  from init_Inr [OF assms] have sz: "0 \<le> sz" and cov: "covers (given_board (nat sz) initial) (nat sz)"
    by simp_all
  from init_closed [OF sz cov] assms
  have csp: "csp = \<lparr>size' = nat sz, box_size = isqrt (nat sz),
           variables = filter (\<lambda>k. cell_value (given_board (nat sz) initial) k = 0) (cells (nat sz)),
           initial_domains =
             map (\<lambda>k. (k, filter (\<lambda>x. \<not> clashes (given_board (nat sz) initial) (isqrt (nat sz))
                                          (cells (nat sz)) k x) [1..int (nat sz)]))
               (filter (\<lambda>k. cell_value (given_board (nat sz) initial) k = 0) (cells (nat sz))),
           initial_board = given_board (nat sz) initial\<rparr>" and st: "st = reset"
    by simp_all
  show "st = reset" by (rule st)
  show "covers (given_board (nat sz) initial) (nat sz)" by (rule cov)
  show "size' csp = nat sz" "box_size csp = isqrt (nat sz)"
    "variables csp = filter (\<lambda>k. cell_value (given_board (nat sz) initial) k = 0) (cells (nat sz))"
    "initial_domains csp =
       map (\<lambda>k. (k, filter (\<lambda>x. \<not> clashes (given_board (nat sz) initial) (box_size csp)
                                    (cells (nat sz)) k x) [1..int (nat sz)])) (variables csp)"
    "initial_board csp = given_board (nat sz) initial"
    unfolding csp by simp_all
qed

lemma built_variables:
  assumes "SudokuCSP_init sz initial = Inr (csp, st)"
  shows "distinct (variables csp)"
    and "\<forall>k \<in> set (variables csp). fst k < size' csp \<and> snd k < size' csp"
    and "variables csp \<noteq> [] \<Longrightarrow> 0 < box_size csp"
proof -
  note b = built [OF assms]
  show "distinct (variables csp)" unfolding b(4) by (simp add: distinct_cells)
  show "\<forall>k \<in> set (variables csp). fst k < size' csp \<and> snd k < size' csp"
    unfolding b(4) b(2) by (auto simp: cells_set)
  assume "variables csp \<noteq> []"
  then have "cells (nat sz) \<noteq> []" unfolding b(4) by auto
  then have "0 < nat sz" by (cases "nat sz = 0") (simp_all add: cells_def)
  then show "0 < box_size csp" unfolding b(3) by (rule isqrt_pos)
qed

lemma built_default_domains:
  assumes "SudokuCSP_init sz initial = Inr (csp, st)"
  shows "default_domains (initial_domains csp) (variables csp) [] = Inr (initial_domains csp)"
proof -
  note b = built [OF assms]
  let ?f = "\<lambda>k. filter (\<lambda>x. \<not> clashes (given_board (nat sz) initial) (box_size csp)
                                    (cells (nat sz)) k x) [1..int (nat sz)]"
  have i: "initial_domains csp = map (\<lambda>k. (k, ?f k)) (variables csp)" by (rule b(5))
  have "\<forall>v \<in> set (variables csp). map_of (initial_domains csp) v = Some (?f v)"
    by (subst i) (simp add: map_of_tabulate)
  from default_domains_closed [OF built_variables(1) [OF assms] _ this, of "[]"]
  show ?thesis using i by simp
qed

lemma built_generator:
  assumes "SudokuCSP_init sz initial = Inr (csp, st)"
  shows "backtrack_generator csp st' = backtrack_from csp (initial_domains csp) [] st'"
  by (simp add: backtrack_generator_def built_default_domains [OF assms])

lemma built_ready:
  assumes "SudokuCSP_init sz initial = Inr (csp, st)" "variables csp \<noteq> []"
  shows "ready csp (initial_domains csp) []"
proof -
  note b = built [OF assms(1)] and v = built_variables [OF assms(1)]
  have "map fst (initial_domains csp) = variables csp" by (subst b(5)) (simp add: comp_def)
  then have "set (variables csp) \<subseteq> fst ` set (initial_domains csp)" by (metis set_map subset_refl)
  moreover have "\<forall>(k, d) \<in> set (initial_domains csp). distinct d" by (subst b(5)) auto
  ultimately show ?thesis unfolding ready_def using v(1) v(3) [OF assms(2)] by simp
qed

lemma built_no_error:
  assumes "SudokuCSP_init sz initial = Inr (csp, st)"
  shows "err (backtrack_generator csp st') = None"
proof (cases "variables csp = []")
  case True
  then show ?thesis unfolding built_generator [OF assms] by (simp add: backtrack_from_leaf)
next
  case False
  from no_error [OF built_ready [OF assms False]] show ?thesis unfolding built_generator [OF assms] .
qed

section \<open>Facts about the length of a drain\<close>

lemma event_bound_mono: "u \<le> u' \<Longrightarrow> event_bound N u \<le> event_bound N u'"
proof (induction u' arbitrary: u)
  case 0
  then show ?case by simp
next
  case (Suc u')
  show ?case
  proof (cases u)
    case 0
    then show ?thesis by simp
  next
    case (Suc w)
    with Suc.prems have "w \<le> u'" by simp
    from Suc.IH [OF this] show ?thesis unfolding Suc by simp
  qed
qed

lemma length_for_values:
  assumes "\<And>v s. v \<in> set vs \<Longrightarrow> length (events (body v s)) \<le> B"
  shows "length (events (for_values body vs st)) \<le> length vs * B"
  using assms
proof (induction vs arbitrary: st)
  case Nil
  then show ?case by simp
next
  case (Cons v vs)
  have b: "length (events (body v st)) \<le> B" using Cons.prems by simp
  have r: "length (events (for_values body vs (final (body v st)))) \<le> length vs * B"
    using Cons.IH Cons.prems by simp
  from b r show ?case by (simp add: Let_def)
qed

lemma forward_check_lengths:
  assumes "forward_check csp var v doms = Inr (Some nd, rm)" "\<forall>(k, d) \<in> set doms. distinct d"
    "\<forall>k d. map_of doms k = Some d \<longrightarrow> length d \<le> N" "0 < N"
  shows "\<forall>k d. map_of nd k = Some d \<longrightarrow> length d \<le> N"
proof (intro allI impI)
  fix k d assume kd: "map_of nd k = Some d"
  note ok = forward_check_ok [OF assms(1,2)]
  show "length d \<le> N"
  proof (cases "k = var")
    case True
    with ok(3) kd assms(4) show ?thesis by auto
  next
    case False
    show ?thesis
    proof (cases "k \<in> set (variables csp) \<and> shares_unit (box_size csp) k var")
      case True
      with ok(4) [of k] False obtain d0 where d0: "map_of doms k = Some d0" "map_of nd k = Some (remove1 v d0)"
        by blast
      have le: "length (remove1 v d0) \<le> length d0" by (simp add: length_remove1)
      from d0 kd have eq: "d = remove1 v d0" by simp
      from assms(3) d0(1) have "length d0 \<le> N" by blast
      with le show ?thesis unfolding eq by simp
    next
      case nb: False
      from ok(5) [OF False nb] kd have "map_of doms k = Some d" by simp
      with assms(3) show ?thesis by blast
    qed
  qed
qed

lemma unassigned_update:
  "unassigned csp (AList.update var v a) = filter (\<lambda>k. k \<noteq> var) (unassigned csp a)"
  unfolding unassigned_def by (auto simp: update_conv' intro: filter_cong)

lemma length_events_bound:
  assumes "0 < N"
  shows "ready csp doms a \<Longrightarrow> \<forall>k d. map_of doms k = Some d \<longrightarrow> length d \<le> N \<Longrightarrow>
    length (events (backtrack_from csp doms a st)) \<le> event_bound N (length (unassigned csp a))"
proof (induction doms a st rule: backtrack_from_induct [where csp = csp])
  case (node doms a st)
  note rdy = node.prems(1) and len = node.prems(2)
  show ?case
  proof (cases "length a = length (variables csp)")
    case True
    have "1 \<le> event_bound N u" for u by (cases u) simp_all
    then show ?thesis by (simp add: backtrack_from_leaf [OF True])
  next
    case False
    from ready_select [OF rdy False] obtain var d lcv where
      sel: "select_unassigned_var csp doms a = Inr var" and d: "map_of doms var = Some d"
      and lcv: "order_domain_values csp var doms a = Inr lcv" by blast
    from order_domain_values_mset [OF lcv] d have "mset lcv = mset d" by simp
    then have ll: "length lcv = length d" by (rule mset_eq_length)
    from len d have "length d \<le> N" by blast
    with ll have llcv: "length lcv \<le> N" by simp
    have var: "var \<in> set (unassigned csp a)" by (rule select_unassigned [OF sel])
    then obtain u where u: "length (unassigned csp a) = Suc u"
      by (cases "unassigned csp a") auto
    have less: "length (unassigned csp (AList.update var v a)) \<le> u" for v
      using unassigned_update_less [OF var, of v] u by simp
    have one: "length (events (try_value csp var doms a (backtrack_from csp) v s)) \<le> 3 + event_bound N u"
      if v: "v \<in> set lcv" for v s
    proof (cases rule: try_value_cases [of csp var doms a "backtrack_from csp" v s])
      case (stuck e es)
      then show ?thesis by auto
    next
      case pruned
      then show ?thesis by simp
    next
      case (wipeout rm)
      then show ?thesis by simp
    next
      case (descend_stuck nd rm)
      from node.IH [OF False sel lcv v descend_stuck(1,2) ready_step [OF rdy sel descend_stuck(2)]
          forward_check_lengths [OF descend_stuck(2) readyD(4) [OF rdy] len assms]]
      have "length (events (backtrack_from csp nd (AList.update var v a) s))
          \<le> event_bound N (length (unassigned csp (AList.update var v a)))" .
      also have "\<dots> \<le> event_bound N u" by (rule event_bound_mono [OF less])
      finally show ?thesis unfolding descend_stuck(4) by simp
    next
      case (descend nd rm)
      from node.IH [OF False sel lcv v descend(1,2) ready_step [OF rdy sel descend(2)]
          forward_check_lengths [OF descend(2) readyD(4) [OF rdy] len assms]]
      have "length (events (backtrack_from csp nd (AList.update var v a) s))
          \<le> event_bound N (length (unassigned csp (AList.update var v a)))" .
      also have "\<dots> \<le> event_bound N u" by (rule event_bound_mono [OF less])
      finally show ?thesis unfolding descend(4) by simp
    qed
    have "length (events (for_values (try_value csp var doms a (backtrack_from csp)) lcv
             (st\<lparr>nodes := nodes st + 1\<rparr>))) \<le> length lcv * (3 + event_bound N u)"
      by (rule length_for_values) (rule one)
    also have "\<dots> \<le> N * (3 + event_bound N u)" using llcv by (rule mult_le_mono1)
    finally show ?thesis unfolding backtrack_from_branch [OF False sel d lcv] u by simp
  qed
qed

lemma built_domain_lengths:
  assumes "SudokuCSP_init sz initial = Inr (csp, st)"
  shows "\<forall>k d. map_of (initial_domains csp) k = Some d \<longrightarrow> length d \<le> size' csp"
proof (intro allI impI)
  fix k d assume "map_of (initial_domains csp) k = Some d"
  then have "d = filter (\<lambda>x. \<not> clashes (given_board (nat sz) initial) (box_size csp)
                                    (cells (nat sz)) k x) [1..int (nat sz)]"
    by (subst (asm) built(5) [OF assms]) (simp add: map_of_tabulate split: if_splits)
  then have "length d \<le> length [1..int (nat sz)]" by (simp only: length_filter_le)
  also have "\<dots> = nat sz" by simp
  finally show "length d \<le> size' csp" by (simp only: built(2) [OF assms])
qed

section \<open>The solutions a drain finds\<close>

lemma search_stateD:
  assumes "search_state csp doms a"
  shows "ready csp doms a"
    and "k \<in> set (variables csp) \<Longrightarrow> fst k < size' csp \<and> snd k < size' csp"
    and "map_of a k = Some x \<Longrightarrow> admissible csp k x"
    and "k \<noteq> k' \<Longrightarrow> shares_unit (box_size csp) k k' \<Longrightarrow> map_of a k = Some x \<Longrightarrow> map_of a k' \<noteq> Some x"
    and "map_of doms k = Some d \<Longrightarrow> x \<in> set d \<Longrightarrow> admissible csp k x"
    and "m \<in> extensions csp a \<Longrightarrow> map_of doms k = Some d \<Longrightarrow> m k = Some x \<Longrightarrow> x \<in> set d"
  using assms unfolding search_state_def by blast+

lemma total_validD:
  assumes "total_valid csp m"
  shows "dom m = set (variables csp)"
    and "m k = Some x \<Longrightarrow> admissible csp k x"
    and "k \<noteq> k' \<Longrightarrow> shares_unit (box_size csp) k k' \<Longrightarrow> m k \<noteq> None \<Longrightarrow> m k \<noteq> m k'"
  using assms unfolding total_valid_def by blast+

lemma sols_append [simp]: "sols (xs @ ys) = sols xs @ sols ys"
  by (induction xs rule: sols.induct) simp_all

lemma found_simps [simp]:
  "found (yield es r) = map map_of (sols es) @ found r"
  "found \<lparr>events = es, final = st, err = e\<rparr> = map map_of (sols es)"
  by (simp_all add: found_def)

lemma found_for_values:
  assumes "\<And>v s. v \<in> set vs \<Longrightarrow> err (body v s) = None"
    and "\<And>v s. v \<in> set vs \<Longrightarrow> distinct (found (body v s)) \<and> set (found (body v s)) = T v"
    and "distinct vs"
    and "\<And>v v'. v \<in> set vs \<Longrightarrow> v' \<in> set vs \<Longrightarrow> v \<noteq> v' \<Longrightarrow> T v \<inter> T v' = {}"
  shows "distinct (found (for_values body vs st)) \<and> set (found (for_values body vs st)) = (\<Union>v \<in> set vs. T v)"
  using assms
proof (induction vs arbitrary: st)
  case Nil
  then show ?case by simp
next
  case (Cons v vs)
  let ?r = "body v st"
  have e: "err ?r = None" using Cons.prems(1) by simp
  have h: "distinct (found ?r)" "set (found ?r) = T v" using Cons.prems(2) [of v st] by simp_all
  have ih: "distinct (found (for_values body vs (final ?r)))"
    "set (found (for_values body vs (final ?r))) = (\<Union>v \<in> set vs. T v)"
    using Cons.IH [of "final ?r"] Cons.prems by simp_all
  have disj: "T v \<inter> (\<Union>v \<in> set vs. T v) = {}"
  proof -
    have "T v \<inter> T v' = {}" if "v' \<in> set vs" for v'
      using Cons.prems(3) that Cons.prems(4) [of v v'] by auto
    then show ?thesis by blast
  qed
  have eq: "found (for_values body (v # vs) st) = found ?r @ found (for_values body vs (final ?r))"
    using e by (simp add: Let_def found_def)
  show ?case unfolding eq using h ih disj by auto
qed

lemma try_value_no_error:
  assumes "ready csp doms a" "select_unassigned_var csp doms a = Inr var"
  shows "err (try_value csp var doms a (backtrack_from csp) v s) = None"
proof (cases rule: try_value_cases [of csp var doms a "backtrack_from csp" v s])
  case (stuck e es)
  with is_consistent_pos [OF readyD(1) [OF assms(1)], of var v a]
    forward_check_Inr [OF readyD(1,3) [OF assms(1)], of var v]
  show ?thesis by auto
next
  case pruned
  then show ?thesis by simp
next
  case (wipeout rm)
  then show ?thesis by simp
next
  case (descend_stuck nd rm)
  from no_error [OF ready_step [OF assms descend_stuck(2)], of s] descend_stuck(3)
  show ?thesis by simp
next
  case (descend nd rm)
  then show ?thesis by simp
qed

lemma unassigned_var:
  assumes "select_unassigned_var csp doms a = Inr var"
  shows "var \<in> set (variables csp)" "map_of a var = None"
  using select_unassigned [OF assms] by (simp_all add: unassigned_def)

lemma map_le_update:
  assumes "map_of a var = None"
  shows "map_of a \<subseteq>\<^sub>m map_of (AList.update var v a)"
  unfolding map_le_def
proof
  fix k assume "k \<in> dom (map_of a)"
  with assms have "k \<noteq> var" by blast
  then show "map_of a k = map_of (AList.update var v a) k" by (simp add: update_conv')
qed

lemma map_le_update_iff:
  assumes "map_of a var = None"
  shows "(map_of (AList.update var v a) \<subseteq>\<^sub>m m) = (map_of a \<subseteq>\<^sub>m m \<and> m var = Some v)"
proof
  assume le: "map_of (AList.update var v a) \<subseteq>\<^sub>m m"
  have "map_of a \<subseteq>\<^sub>m m" using map_le_update [OF assms] le by (rule map_le_trans)
  moreover have "map_of (AList.update var v a) var = Some v" by (simp add: update_conv')
  with le have "m var = Some v" by (metis domI map_le_def)
  ultimately show "map_of a \<subseteq>\<^sub>m m \<and> m var = Some v" by simp
next
  assume h: "map_of a \<subseteq>\<^sub>m m \<and> m var = Some v"
  show "map_of (AList.update var v a) \<subseteq>\<^sub>m m"
    unfolding map_le_def
  proof
    fix k assume k: "k \<in> dom (map_of (AList.update var v a))"
    show "map_of (AList.update var v a) k = m k"
    proof (cases "k = var")
      case True
      with h show ?thesis by (simp add: update_conv')
    next
      case False
      with k have "k \<in> dom (map_of a)" by (simp add: update_conv')
      with h have "map_of a k = m k" by (simp add: map_le_def)
      with False show ?thesis by (simp add: update_conv')
    qed
  qed
qed

lemma extensions_update:
  assumes "map_of a var = None"
  shows "extensions csp (AList.update var v a) = {m \<in> extensions csp a. m var = Some v}"
  unfolding extensions_def using map_le_update_iff [OF assms] by blast

lemma keys_in_grid:
  assumes "search_state csp doms a"
  shows "\<forall>k \<in> fst ` set a. fst k < size' csp \<and> snd k < size' csp"
  using readyD(6) [OF search_stateD(1) [OF assms]] search_stateD(2) [OF assms] by blast

lemma pruned_no_extension:
  assumes "search_state csp doms a" "select_unassigned_var csp doms a = Inr var"
    "is_consistent csp var v a = Inr False"
  shows "extensions csp (AList.update var v a) = {}"
proof -
  note un = unassigned_var [OF assms(2)]
  from assms(3) is_consistent_closed [OF readyD(1) [OF search_stateD(1) [OF assms(1)]] keys_in_grid [OF assms(1)], of var v]
  obtain k where k: "map_of a k = Some v" "shares_unit (box_size csp) k var" by auto
  with un have kv: "k \<noteq> var" by auto
  { fix m assume m: "m \<in> extensions csp a" "m var = Some v"
    then have tv: "total_valid csp m" and le: "map_of a \<subseteq>\<^sub>m m" by (simp_all add: extensions_def)
    from le k(1) have "m k = Some v" by (metis domI map_le_def)
    with total_validD(3) [OF tv kv k(2)] m(2) have False by simp }
  then show ?thesis unfolding extensions_update [OF un(2)] by blast
qed

lemma wipeout_no_extension:
  assumes "search_state csp doms a" "select_unassigned_var csp doms a = Inr var"
    "forward_check csp var v doms = Inr (None, rm)"
  shows "extensions csp (AList.update var v a) = {}"
proof -
  note un = unassigned_var [OF assms(2)]
  from forward_check_fail [OF assms(3)] obtain k d where
    k: "k \<in> set (variables csp)" "k \<noteq> var" "shares_unit (box_size csp) k var"
    "map_of doms k = Some d" "set d \<subseteq> {v}" by blast
  { fix m assume m: "m \<in> extensions csp a" "m var = Some v"
    then have tv: "total_valid csp m" by (simp add: extensions_def)
    from total_validD(1) [OF tv] k(1) obtain x where x: "m k = Some x" by blast
    from search_stateD(6) [OF assms(1) m(1) k(4) x] k(5) have "x = v" by blast
    with total_validD(3) [OF tv k(2,3)] x m(2) have False by simp }
  then show ?thesis unfolding extensions_update [OF un(2)] by blast
qed

lemma search_state_step:
  assumes st: "search_state csp doms a" and sel: "select_unassigned_var csp doms a = Inr var"
    and d: "map_of doms var = Some d" and v: "v \<in> set d"
    and ic: "is_consistent csp var v a = Inr True"
    and fc: "forward_check csp var v doms = Inr (Some nd, rm)"
  shows "search_state csp nd (AList.update var v a)"
proof -
  let ?a1 = "AList.update var v a"
  note rdy = search_stateD(1) [OF st]
  note un = unassigned_var [OF sel]
  note ok = forward_check_ok [OF fc readyD(4) [OF rdy]]
  have a1: "map_of ?a1 k = (if k = var then Some v else map_of a k)" for k
    by (simp add: update_conv')
  from ic is_consistent_closed [OF readyD(1) [OF rdy] keys_in_grid [OF st], of var v]
  have "\<not> (\<exists>k. map_of a k = Some v \<and> shares_unit (box_size csp) k var)" by simp
  then have free: "\<not> (map_of a k = Some v \<and> shares_unit (box_size csp) k var)" for k by blast
  have nd_cases: "(k = var \<and> d' = [v]) \<or>
      (k \<noteq> var \<and> (\<exists>d0. map_of doms k = Some d0 \<and> d' = remove1 v d0 \<and>
          k \<in> set (variables csp) \<and> shares_unit (box_size csp) k var)) \<or>
      (k \<noteq> var \<and> map_of doms k = Some d' \<and>
          \<not> (k \<in> set (variables csp) \<and> shares_unit (box_size csp) k var))"
    if "map_of nd k = Some d'" for k d'
  proof (cases "k = var")
    case True
    with that ok(3) show ?thesis by simp
  next
    case False
    show ?thesis
    proof (cases "k \<in> set (variables csp) \<and> shares_unit (box_size csp) k var")
      case True
      with ok(4) [of k] False that show ?thesis by auto
    next
      case nb: False
      from ok(5) [OF False nb] that False nb show ?thesis by simp
    qed
  qed
  have p1: "ready csp nd ?a1" by (rule ready_step [OF rdy sel fc])
  have p2: "\<forall>k \<in> set (variables csp). fst k < size' csp \<and> snd k < size' csp"
    using search_stateD(2) [OF st] by blast
  have p3: "admissible csp k x" if "map_of ?a1 k = Some x" for k x
  proof (cases "k = var")
    case True
    with that have "x = v" by (simp add: a1)
    with search_stateD(5) [OF st d v] True show ?thesis by simp
  next
    case False
    with that have "map_of a k = Some x" by (simp add: a1)
    then show ?thesis by (rule search_stateD(3) [OF st])
  qed
  have p4: "map_of ?a1 k' \<noteq> Some x"
    if "k \<noteq> k'" "shares_unit (box_size csp) k k'" "map_of ?a1 k = Some x" for k k' x
  proof (cases "k = var")
    case True
    with that(3) have x: "x = v" by (simp add: a1)
    from that(1) True have k': "k' \<noteq> var" by simp
    from that(2) True have "shares_unit (box_size csp) k' var" by (simp add: shares_unit_sym)
    with free [of k'] have "map_of a k' \<noteq> Some v" by simp
    with k' x show ?thesis by (simp add: a1)
  next
    case False
    with that(3) have ak: "map_of a k = Some x" by (simp add: a1)
    show ?thesis
    proof (cases "k' = var")
      case True
      with that(2) free [of k] ak have "x \<noteq> v" by auto
      with True show ?thesis by (simp add: a1)
    next
      case k': False
      from search_stateD(4) [OF st that(1,2) ak] k' show ?thesis by (simp add: a1)
    qed
  qed
  have p5: "admissible csp k x" if "map_of nd k = Some d'" "x \<in> set d'" for k d' x
    using nd_cases [OF that(1)]
  proof (elim disjE conjE exE)
    assume "k = var" "d' = [v]"
    with that(2) search_stateD(5) [OF st d v] show ?thesis by simp
  next
    fix d0 assume d0: "map_of doms k = Some d0" "d' = remove1 v d0"
    with that(2) have "x \<in> set d0" using set_remove1_subset [of v d0] by blast
    with d0(1) show ?thesis by (rule search_stateD(5) [OF st])
  next
    assume "map_of doms k = Some d'"
    then show ?thesis using that(2) by (rule search_stateD(5) [OF st])
  qed
  have p6: "x \<in> set d'"
    if m: "m \<in> extensions csp ?a1" and k: "map_of nd k = Some d'" "m k = Some x" for m k d' x
  proof -
    from m have ma: "m \<in> extensions csp a" and mv: "m var = Some v"
      by (simp_all add: extensions_update [OF un(2)])
    then have tv: "total_valid csp m" by (simp add: extensions_def)
    from nd_cases [OF k(1)] show ?thesis
    proof (elim disjE conjE exE)
      assume "k = var" "d' = [v]"
      with mv k(2) show ?thesis by simp
    next
      fix d0 assume h: "k \<noteq> var" "map_of doms k = Some d0" "d' = remove1 v d0"
        "shares_unit (box_size csp) k var"
      from search_stateD(6) [OF st ma h(2) k(2)] have "x \<in> set d0" .
      moreover from total_validD(3) [OF tv h(1,4)] k(2) mv have "x \<noteq> v" by auto
      ultimately show ?thesis unfolding h(3) by simp
    next
      assume "map_of doms k = Some d'"
      from search_stateD(6) [OF st ma this k(2)] show ?thesis .
    qed
  qed
  show ?thesis unfolding search_state_def using p1 p2 p3 p4 p5 p6 by blast
qed

lemma extensions_full:
  assumes st: "search_state csp doms a" and full: "length a = length (variables csp)"
  shows "extensions csp a = {map_of a}"
proof -
  note rdy = search_stateD(1) [OF st]
  from full full_assignment [OF readyD(2,5,6) [OF rdy]]
  have keys: "fst ` set a = set (variables csp)" by simp
  then have dom: "dom (map_of a) = set (variables csp)" by (simp add: dom_map_of_conv_image_fst)
  have tv: "total_valid csp (map_of a)"
    unfolding total_valid_def
  proof (intro conjI allI impI)
    show "dom (map_of a) = set (variables csp)" by (rule dom)
  next
    fix k x assume "map_of a k = Some x"
    then show "admissible csp k x" by (rule search_stateD(3) [OF st])
  next
    fix k k' assume h: "k \<noteq> k' \<and> shares_unit (box_size csp) k k' \<and> map_of a k \<noteq> None"
    then obtain x where x: "map_of a k = Some x" by auto
    from search_stateD(4) [OF st _ _ x, of k'] h x show "map_of a k \<noteq> map_of a k'" by auto
  qed
  have "m = map_of a" if "total_valid csp m" "map_of a \<subseteq>\<^sub>m m" for m
  proof (rule map_le_antisym [OF _ that(2)])
    from total_validD(1) [OF that(1)] dom have "dom m = dom (map_of a)" by simp
    with that(2) show "m \<subseteq>\<^sub>m map_of a" by (metis map_le_def)
  qed
  with tv show ?thesis unfolding extensions_def by auto
qed

lemma extensions_split:
  assumes st: "search_state csp doms a" and sel: "select_unassigned_var csp doms a = Inr var"
    and d: "map_of doms var = Some d"
  shows "(\<Union>v \<in> set d. extensions csp (AList.update var v a)) = extensions csp a"
proof -
  note un = unassigned_var [OF sel]
  have "\<exists>v \<in> set d. m var = Some v" if m: "m \<in> extensions csp a" for m
  proof -
    from m have "total_valid csp m" by (simp add: extensions_def)
    from total_validD(1) [OF this] un(1) obtain x where x: "m var = Some x" by blast
    from search_stateD(6) [OF st m d x] x show ?thesis by blast
  qed
  then show ?thesis unfolding extensions_update [OF un(2)] by blast
qed

lemma found_try_value:
  assumes st: "search_state csp doms a" and sel: "select_unassigned_var csp doms a = Inr var"
    and d: "map_of doms var = Some d" and v: "v \<in> set d"
    and IH: "\<And>nd rm. is_consistent csp var v a = Inr True \<Longrightarrow>
               forward_check csp var v doms = Inr (Some nd, rm) \<Longrightarrow>
               search_state csp nd (AList.update var v a) \<Longrightarrow>
               distinct (found (backtrack_from csp nd (AList.update var v a) s)) \<and>
               set (found (backtrack_from csp nd (AList.update var v a) s))
                 = extensions csp (AList.update var v a)"
  shows "distinct (found (try_value csp var doms a (backtrack_from csp) v s)) \<and>
         set (found (try_value csp var doms a (backtrack_from csp) v s))
           = extensions csp (AList.update var v a)"
proof (cases rule: try_value_cases [of csp var doms a "backtrack_from csp" v s])
  case (stuck e es)
  with try_value_no_error [OF search_stateD(1) [OF st] sel, of v s] show ?thesis by simp
next
  case pruned
  with pruned_no_extension [OF st sel pruned(1)] show ?thesis by simp
next
  case (wipeout rm)
  with wipeout_no_extension [OF st sel wipeout(2)] show ?thesis by simp
next
  case (descend_stuck nd rm)
  with try_value_no_error [OF search_stateD(1) [OF st] sel, of v s] show ?thesis by simp
next
  case (descend nd rm)
  from IH [OF descend(1,2) search_state_step [OF st sel d v descend(1,2)]]
  show ?thesis unfolding descend(4) by (simp add: found_def)
qed

lemma search_finds_extensions:
  "search_state csp doms a \<Longrightarrow>
   distinct (found (backtrack_from csp doms a st)) \<and>
   set (found (backtrack_from csp doms a st)) = extensions csp a"
proof (induction doms a st rule: backtrack_from_induct [where csp = csp])
  case (node doms a st)
  note st = node.prems
  note rdy = search_stateD(1) [OF st]
  show ?case
  proof (cases "length a = length (variables csp)")
    case True
    with extensions_full [OF st True] show ?thesis by (simp add: backtrack_from_leaf)
  next
    case False
    from ready_select [OF rdy False] obtain var d lcv where
      sel: "select_unassigned_var csp doms a = Inr var" and d: "map_of doms var = Some d"
      and lcv: "order_domain_values csp var doms a = Inr lcv" by blast
    from order_domain_values_mset [OF lcv] d have ms: "mset lcv = mset d" by simp
    then have sl: "set lcv = set d" by (rule mset_eq_setD)
    from map_of_SomeD [OF d] readyD(4) [OF rdy] have "distinct d" by blast
    with ms have dl: "distinct lcv" by (metis mset_eq_imp_distinct_iff)
    note un = unassigned_var [OF sel]
    let ?body = "try_value csp var doms a (backtrack_from csp)"
    let ?T = "\<lambda>v. extensions csp (AList.update var v a)"
    have "distinct (found (for_values ?body lcv (st\<lparr>nodes := nodes st + 1\<rparr>))) \<and>
          set (found (for_values ?body lcv (st\<lparr>nodes := nodes st + 1\<rparr>))) = (\<Union>v \<in> set lcv. ?T v)"
    proof (rule found_for_values)
      fix v s assume "v \<in> set lcv"
      show "err (?body v s) = None" by (rule try_value_no_error [OF rdy sel])
    next
      fix v s assume v: "v \<in> set lcv"
      then have vd: "v \<in> set d" using sl by simp
      show "distinct (found (?body v s)) \<and> set (found (?body v s)) = ?T v"
        by (rule found_try_value [OF st sel d vd]) (rule node.IH [OF False sel lcv v])
    next
      show "distinct lcv" by (rule dl)
    next
      fix v v' :: int assume "v \<noteq> v'"
      then show "?T v \<inter> ?T v' = {}" unfolding extensions_update [OF un(2)] by auto
    qed
    then show ?thesis
      unfolding backtrack_from_branch [OF False sel d lcv] sl extensions_split [OF st sel d]
      by simp
  qed
qed

section \<open>Rows, columns and boxes\<close>

lemma units_cases:
  assumes "u \<in> set (units n bs)"
  obtains (row) r where "r < n" "u = map (\<lambda>c. (r, c)) [0..<n]"
  | (col) c where "c < n" "u = map (\<lambda>r. (r, c)) [0..<n]"
  | (box) i j where "i < bs" "j < bs" "u = map (\<lambda>(dr, dc). (i * bs + dr, j * bs + dc)) (cells bs)"
proof -
  from assms have "u \<in> (\<lambda>r. map (\<lambda>c. (r, c)) [0..<n]) ` {0..<n} \<or>
      u \<in> (\<lambda>c. map (\<lambda>r. (r, c)) [0..<n]) ` {0..<n} \<or>
      u \<in> (\<lambda>(i, j). map (\<lambda>(dr, dc). (i * bs + dr, j * bs + dc)) (cells bs)) ` set (cells bs)"
    by (simp add: units_def)
  then show ?thesis
  proof (elim disjE imageE)
    fix r assume "u = map (\<lambda>c. (r, c)) [0..<n]" "r \<in> {0..<n}"
    then show ?thesis using row by simp
  next
    fix c assume "u = map (\<lambda>r. (r, c)) [0..<n]" "c \<in> {0..<n}"
    then show ?thesis using col by simp
  next
    fix p assume p: "u = (\<lambda>(i, j). map (\<lambda>(dr, dc). (i * bs + dr, j * bs + dc)) (cells bs)) p"
      "p \<in> set (cells bs)"
    obtain i j where ij: "p = (i, j)" by (cases p)
    with p(2) have "i < bs" "j < bs" by (simp_all add: cells_set)
    with p(1) ij show ?thesis using box by simp
  qed
qed

lemma row_unit: "r < n \<Longrightarrow> map (\<lambda>c. (r, c)) [0..<n] \<in> set (units n bs)"
  unfolding units_def set_append set_map by (intro UnI1 image_eqI [where x = r]) simp_all

lemma col_unit: "c < n \<Longrightarrow> map (\<lambda>r. (r, c)) [0..<n] \<in> set (units n bs)"
  unfolding units_def set_append set_map by (intro UnI2 UnI1 image_eqI [where x = c]) simp_all

lemma box_unit:
  "i < bs \<Longrightarrow> j < bs \<Longrightarrow>
   map (\<lambda>(dr, dc). (i * bs + dr, j * bs + dc)) (cells bs) \<in> set (units n bs)"
  unfolding units_def set_append set_map
  by (intro UnI2 image_eqI [where x = "(i, j)"]) (simp_all add: cells_set)

lemma length_cells: "length (cells n) = n * n"
  by (simp add: cells_def length_concat comp_def sum_list_triv)

lemma box_bound: "i < bs \<Longrightarrow> d < bs \<Longrightarrow> i * bs + d < bs * (bs::nat)"
proof -
  assume a: "i < bs" "d < bs"
  then have "i * bs + d < i * bs + bs" by simp
  also have "\<dots> = (i + 1) * bs" by simp
  also have "\<dots> \<le> bs * bs" using a(1) by (intro mult_le_mono1) simp
  finally show ?thesis .
qed

lemma box_div: "d < bs \<Longrightarrow> (i * bs + d) div bs = (i::nat)"
  by simp

lemma units_facts:
  assumes "u \<in> set (units n bs)" "bs * bs = n"
  shows "distinct u" "set u \<subseteq> set (cells n)" "length u = n"
    "\<And>k k'. k \<in> set u \<Longrightarrow> k' \<in> set u \<Longrightarrow> shares_unit bs k k'"
proof -
  have "distinct u \<and> set u \<subseteq> set (cells n) \<and> length u = n \<and>
        (\<forall>k \<in> set u. \<forall>k' \<in> set u. shares_unit bs k k')"
    using assms(1)
  proof (cases rule: units_cases)
    case (row r)
    then show ?thesis by (auto simp: distinct_map inj_on_def cells_set shares_unit_def)
  next
    case (col c)
    then show ?thesis by (auto simp: distinct_map inj_on_def cells_set shares_unit_def)
  next
    case (box i j)
    have inj: "inj_on (\<lambda>(dr, dc). (i * bs + dr, j * bs + dc)) (set (cells bs))"
      by (auto simp: inj_on_def)
    have d: "distinct u" unfolding box(3) using inj by (simp add: distinct_map distinct_cells)
    have s: "set u \<subseteq> set (cells n)"
      unfolding box(3) using box(1,2) box_bound [of _ bs] assms(2) by (auto simp: cells_set)
    have l: "length u = n" unfolding box(3) using assms(2) by (simp add: length_cells)
    have sh: "shares_unit bs k k'" if "k \<in> set u" "k' \<in> set u" for k k'
      using that unfolding box(3) by (auto simp: cells_set shares_unit_def)
    from d s l sh show ?thesis by blast
  qed
  then show "distinct u" "set u \<subseteq> set (cells n)" "length u = n"
    "\<And>k k'. k \<in> set u \<Longrightarrow> k' \<in> set u \<Longrightarrow> shares_unit bs k k'" by blast+
qed

lemma common_unit:
  assumes "bs * bs = n" "k \<in> set (cells n)" "k' \<in> set (cells n)" "shares_unit bs k k'"
  shows "\<exists>u \<in> set (units n bs). k \<in> set u \<and> k' \<in> set u"
proof -
  obtain r c where k: "k = (r, c)" by (cases k)
  obtain r' c' where k': "k' = (r', c')" by (cases k')
  from assms(2,3) have lt: "r < n" "c < n" "r' < n" "c' < n" by (simp_all add: k k' cells_set)
  then have bs: "0 < bs" using assms(1) by (cases bs) auto
  from assms(4) consider "r = r'" | "c = c'" | "r div bs = r' div bs" "c div bs = c' div bs"
    by (auto simp: shares_unit_def k k')
  then show ?thesis
  proof cases
    case 1
    let ?u = "map (\<lambda>c. (r, c)) [0..<n]"
    have "?u \<in> set (units n bs)" using lt by (simp add: row_unit)
    moreover have "k \<in> set ?u" "k' \<in> set ?u" using lt 1 by (auto simp: k k')
    ultimately show ?thesis by blast
  next
    case 2
    let ?u = "map (\<lambda>r. (r, c)) [0..<n]"
    have "?u \<in> set (units n bs)" using lt by (simp add: col_unit)
    moreover have "k \<in> set ?u" "k' \<in> set ?u" using lt 2 by (auto simp: k k')
    ultimately show ?thesis by blast
  next
    case 3
    let ?i = "r div bs" and ?j = "c div bs"
    let ?u = "map (\<lambda>(dr, dc). (?i * bs + dr, ?j * bs + dc)) (cells bs)"
    have ij: "?i < bs" "?j < bs"
      using lt assms(1) bs by (simp_all add: less_mult_imp_div_less)
    then have "?u \<in> set (units n bs)" by (rule box_unit)
    moreover have mem: "(x, y) \<in> set ?u" if "x div bs = ?i" "y div bs = ?j" for x y
    proof -
      have "(x mod bs, y mod bs) \<in> set (cells bs)" using bs by (simp add: cells_set)
      moreover have "(x, y) = (\<lambda>(dr, dc). (?i * bs + dr, ?j * bs + dc)) (x mod bs, y mod bs)"
        unfolding that [symmetric] by simp
      ultimately show ?thesis unfolding set_map by (rule rev_image_eqI)
    qed
    have "k \<in> set ?u" unfolding k by (rule mem) simp_all
    moreover have "k' \<in> set ?u" unfolding k' by (rule mem) (simp_all add: 3)
    ultimately show ?thesis by blast
  qed
qed

lemma perm_of_range:
  assumes "distinct u" "length u = n" "inj_on f (set u)" "\<forall>k \<in> set u. 1 \<le> f k \<and> f k \<le> int n"
  shows "mset (map f u) = mset [1..int n]"
proof -
  have d: "distinct (map f u)" using assms(1,3) by (simp add: distinct_map)
  have sub: "set (map f u) \<subseteq> {1..int n}" using assms(4) by auto
  have "card (set (map f u)) = n" using d assms(2) by (metis distinct_card length_map)
  then have "card (set (map f u)) = card {1..int n}" by simp
  with sub have "set (map f u) = {1..int n}" by (intro card_subset_eq) simp_all
  then have "set (map f u) = set [1..int n]" by simp
  with d show ?thesis using set_eq_iff_mset_eq_distinct [of "map f u" "[1..int n]"] by simp
qed

section \<open>Valid assignments and solved grids\<close>

lemma well_formedD:
  assumes "well_formed b"
  shows "isqrt (length b) * isqrt (length b) = length b"
    and "row \<in> set b \<Longrightarrow> length row = length b"
    and "row \<in> set b \<Longrightarrow> x \<in> set row \<Longrightarrow> 0 \<le> x \<and> x \<le> int (length b)"
    and "k \<in> set (cells (length b)) \<Longrightarrow> k' \<in> set (cells (length b)) \<Longrightarrow> k \<noteq> k' \<Longrightarrow>
         shares_unit (isqrt (length b)) k k' \<Longrightarrow> cell_value b k \<noteq> 0 \<Longrightarrow>
         cell_value b k \<noteq> cell_value b k'"
  using assms unfolding well_formed_def by blast+

lemma well_formed_cell:
  assumes "well_formed b" "k \<in> set (cells (length b))"
  shows "in_range b k" "0 \<le> cell_value b k" "cell_value b k \<le> int (length b)"
proof -
  from assms(2) have lt: "fst k < length b" "snd k < length b" by (auto simp: cells_set)
  then have row: "b ! fst k \<in> set b" by simp
  from well_formedD(2) [OF assms(1) row] lt show r: "in_range b k" by (simp add: in_range_def)
  then have "b ! fst k ! snd k \<in> set (b ! fst k)" by (simp add: in_range_def)
  from well_formedD(3) [OF assms(1) row this]
  show "0 \<le> cell_value b k" "cell_value b k \<le> int (length b)" by (simp_all add: cell_value_def)
qed

lemma well_formed_covers: "well_formed b \<Longrightarrow> covers b (length b)"
  unfolding covers_def using well_formed_cell(1) by blast

lemma well_formed_init:
  assumes "well_formed b"
  shows "\<exists>csp st. SudokuCSP_init (int (length b)) (Some b) = Inr (csp, st)"
proof -
  have "covers (given_board (nat (int (length b))) (Some b)) (nat (int (length b)))"
    using well_formed_covers [OF assms] by (simp add: given_board_def)
  from init_closed [OF _ this] show ?thesis by simp
qed

text \<open>The engine built on a well-formed board.\<close>

lemma built_on:
  assumes "SudokuCSP_init (int (length b)) (Some b) = Inr (csp, st)"
  shows "size' csp = length b" "box_size csp = isqrt (length b)"
    "variables csp = filter (\<lambda>k. cell_value b k = 0) (cells (length b))"
    "admissible csp k x =
       (k \<in> set (variables csp) \<and> 1 \<le> x \<and> x \<le> int (length b) \<and>
        \<not> clashes b (box_size csp) (cells (length b)) k x)"
proof -
  note bt = built [OF assms]
  have gb: "given_board n (Some b) = b" for n by (simp add: given_board_def)
  show "size' csp = length b" "box_size csp = isqrt (length b)" using bt(2,3) by simp_all
  show v: "variables csp = filter (\<lambda>k. cell_value b k = 0) (cells (length b))"
    using bt(4) by (simp add: gb)
  have "map_of (initial_domains csp) k =
      (if k \<in> set (variables csp)
       then Some (filter (\<lambda>x. \<not> clashes b (box_size csp) (cells (length b)) k x) [1..int (length b)])
       else None)"
    by (subst bt(5)) (simp add: map_of_tabulate gb)
  then show "admissible csp k x =
       (k \<in> set (variables csp) \<and> 1 \<le> x \<and> x \<le> int (length b) \<and>
        \<not> clashes b (box_size csp) (cells (length b)) k x)"
    unfolding admissible_def by auto
qed

lemma cell_value_merge:
  assumes "k \<in> set (cells n)"
  shows "cell_value (merge b n m) k = (case m k of Some x \<Rightarrow> x | None \<Rightarrow> cell_value b k)"
proof -
  obtain r c where k: "k = (r, c)" by (cases k)
  with assms have "r < n" "c < n" by (simp_all add: cells_set)
  then show ?thesis unfolding k by (simp add: cell_value_def merge_def split: option.splits)
qed

lemma merge_shape: "length (merge b n m) = n" "\<forall>row \<in> set (merge b n m). length row = n"
  by (auto simp: merge_def)

lemma merged_values:
  assumes wf: "well_formed b" and init: "SudokuCSP_init (int (length b)) (Some b) = Inr (csp, st)"
    and tv: "total_valid csp m" and k: "k \<in> set (cells (length b))"
  shows "1 \<le> cell_value (merge b (length b) m) k \<and> cell_value (merge b (length b) m) k \<le> int (length b)"
proof (cases "m k")
  case None
  with total_validD(1) [OF tv] have "k \<notin> set (variables csp)" by blast
  with k have "cell_value b k \<noteq> 0" by (simp add: built_on(3) [OF init])
  with well_formed_cell(2,3) [OF wf k] None show ?thesis by (simp add: cell_value_merge [OF k])
next
  case (Some x)
  from total_validD(2) [OF tv Some] have "1 \<le> x \<and> x \<le> int (length b)"
    by (simp add: built_on(4) [OF init])
  with Some show ?thesis by (simp add: cell_value_merge [OF k])
qed

lemma merged_distinct:
  assumes wf: "well_formed b" and init: "SudokuCSP_init (int (length b)) (Some b) = Inr (csp, st)"
    and tv: "total_valid csp m" and k: "k \<in> set (cells (length b))" "k' \<in> set (cells (length b))"
    and ne: "k \<noteq> k'" and sh: "shares_unit (isqrt (length b)) k k'"
  shows "cell_value (merge b (length b) m) k \<noteq> cell_value (merge b (length b) m) k'"
proof -
  note bo = built_on [OF init]
  have vars: "(kk \<in> set (variables csp)) = (cell_value b kk = 0)" if "kk \<in> set (cells (length b))" for kk
    using that by (simp add: bo(3))
  have dom: "(m kk \<noteq> None) = (kk \<in> set (variables csp))" for kk
    using total_validD(1) [OF tv] by blast
  have mixed: "x \<noteq> cell_value b kf"
    if "m kv = Some x" "m kf = None" "kf \<in> set (cells (length b))" "shares_unit (isqrt (length b)) kv kf"
    for kv kf x
  proof
    assume eq: "x = cell_value b kf"
    from that(2,3) dom [of kf] vars [of kf] have "cell_value b kf \<noteq> 0" by simp
    with that(3,4) eq have "clashes b (box_size csp) (cells (length b)) kv x"
      unfolding clashes_def bo(2) by blast
    with total_validD(2) [OF tv that(1)] show False by (simp add: bo(4))
  qed
  show ?thesis
  proof (cases "m k")
    case None
    note nk = None
    show ?thesis
    proof (cases "m k'")
      case None
      from nk k(1) dom [of k] vars [of k] have "cell_value b k \<noteq> 0" by simp
      from well_formedD(4) [OF wf k ne sh this] nk None show ?thesis
        by (simp add: cell_value_merge [OF k(1)] cell_value_merge [OF k(2)])
    next
      case (Some x)
      from mixed [OF Some nk k(1)] sh have "x \<noteq> cell_value b k" by (simp add: shares_unit_sym)
      with nk Some show ?thesis
        by (simp add: cell_value_merge [OF k(1)] cell_value_merge [OF k(2)])
    qed
  next
    case (Some x)
    show ?thesis
    proof (cases "m k'")
      case None
      from mixed [OF Some None k(2) sh] Some None show ?thesis
        by (simp add: cell_value_merge [OF k(1)] cell_value_merge [OF k(2)])
    next
      case s': (Some x')
      from total_validD(3) [OF tv ne] sh Some s' have "x \<noteq> x'" by (auto simp: bo(2))
      with Some s' show ?thesis
        by (simp add: cell_value_merge [OF k(1)] cell_value_merge [OF k(2)])
    qed
  qed
qed

lemma merged_solved:
  assumes wf: "well_formed b" and init: "SudokuCSP_init (int (length b)) (Some b) = Inr (csp, st)"
    and tv: "total_valid csp m"
  shows "solved (length b) (box_size csp) (merge b (length b) m)"
  unfolding solved_def
proof
  fix u assume "u \<in> set (units (length b) (box_size csp))"
  then have u: "u \<in> set (units (length b) (isqrt (length b)))" by (simp add: built_on(2) [OF init])
  note uf = units_facts [OF u well_formedD(1) [OF wf]]
  let ?f = "cell_value (merge b (length b) m)"
  have "inj_on ?f (set u)"
  proof (rule inj_onI)
    fix k k' assume h: "k \<in> set u" "k' \<in> set u" "?f k = ?f k'"
    show "k = k'"
    proof (rule ccontr)
      assume "k \<noteq> k'"
      from merged_distinct [OF wf init tv _ _ this uf(4) [OF h(1,2)]] h uf(2) show False by blast
    qed
  qed
  moreover have "\<forall>k \<in> set u. 1 \<le> ?f k \<and> ?f k \<le> int (length b)"
    using merged_values [OF wf init tv] uf(2) by blast
  ultimately show "mset (map ?f u) = mset [1..int (length b)]"
    by (rule perm_of_range [OF uf(1,3)])
qed

lemma built_search_state:
  assumes "SudokuCSP_init sz initial = Inr (csp, st)" "variables csp \<noteq> []"
  shows "search_state csp (initial_domains csp) []"
proof -
  have "x \<in> set d" if "m \<in> extensions csp []" "map_of (initial_domains csp) k = Some d" "m k = Some x"
    for m k d x
  proof -
    from that(1) have "total_valid csp m" by (simp add: extensions_def)
    from total_validD(2) [OF this that(3)] that(2) show ?thesis by (auto simp: admissible_def)
  qed
  moreover have "admissible csp k x" if "map_of (initial_domains csp) k = Some d" "x \<in> set d" for k d x
    using that unfolding admissible_def by blast
  ultimately show ?thesis
    unfolding search_state_def
    using built_ready [OF assms] built_variables(2) [OF assms(1)] by simp blast
qed

lemma extensions_Nil: "extensions csp [] = {m. total_valid csp m}"
  by (simp add: extensions_def)

lemma built_found:
  assumes "SudokuCSP_init sz initial = Inr (csp, st)"
  shows "distinct (found (backtrack_generator csp st')) \<and>
         set (found (backtrack_generator csp st')) = {m. total_valid csp m}"
proof (cases "variables csp = []")
  case True
  have "total_valid csp m = (m = Map.empty)" for m
    unfolding total_valid_def True by auto
  then have "{m. total_valid csp m} = {Map.empty}" by auto
  moreover have "found (backtrack_generator csp st') = [Map.empty]"
    unfolding built_generator [OF assms] using True by (simp add: backtrack_from_leaf)
  ultimately show ?thesis by simp
next
  case False
  from search_finds_extensions [OF built_search_state [OF assms False], of st']
  show ?thesis unfolding built_generator [OF assms] extensions_Nil .
qed

lemma solution_in_sols: "(Solution s \<in> set es) = (s \<in> set (sols es))"
  by (induction es rule: sols.induct) auto

section \<open>Completions of a board\<close>

lemma completionD:
  assumes "completion b g"
  shows "length g = length b" "row \<in> set g \<Longrightarrow> length row = length b"
    "k \<in> set (cells (length b)) \<Longrightarrow> cell_value b k \<noteq> 0 \<Longrightarrow> cell_value g k = cell_value b k"
    "solved (length b) (isqrt (length b)) g"
  using assms unfolding completion_def by blast+

lemma solved_unit:
  assumes "solved n bs g" "u \<in> set (units n bs)"
  shows "distinct (map (cell_value g) u)" "set (map (cell_value g) u) = {1..int n}"
proof -
  from assms have eq: "mset (map (cell_value g) u) = mset [1..int n]" by (simp add: solved_def)
  have "distinct [1..int n]" by simp
  with eq show "distinct (map (cell_value g) u)" by (metis mset_eq_imp_distinct_iff)
  from mset_eq_setD [OF eq] show "set (map (cell_value g) u) = {1..int n}" by simp
qed

lemma solved_distinct:
  assumes "solved n bs g" "bs * bs = n" "k \<in> set (cells n)" "k' \<in> set (cells n)" "k \<noteq> k'"
    "shares_unit bs k k'"
  shows "cell_value g k \<noteq> cell_value g k'"
proof -
  from common_unit [OF assms(2,3,4,6)] obtain u where
    u: "u \<in> set (units n bs)" "k \<in> set u" "k' \<in> set u" by blast
  from solved_unit(1) [OF assms(1) u(1)] have "inj_on (cell_value g) (set u)"
    by (simp add: distinct_map)
  with u(2,3) assms(5) show ?thesis by (auto dest: inj_onD)
qed

lemma solved_values:
  assumes "solved n bs g" "k \<in> set (cells n)"
  shows "1 \<le> cell_value g k \<and> cell_value g k \<le> int n"
proof -
  obtain r c where k: "k = (r, c)" by (cases k)
  with assms(2) have lt: "r < n" "c < n" by (simp_all add: cells_set)
  let ?u = "map (\<lambda>c. (r, c)) [0..<n]"
  have "k \<in> set ?u" using lt by (simp add: k)
  then have "cell_value g k \<in> set (map (cell_value g) ?u)" by (metis imageI set_map)
  with solved_unit(2) [OF assms(1) row_unit [OF lt(1)]] show ?thesis by simp
qed

lemma completion_total_valid:
  assumes wf: "well_formed b" and init: "SudokuCSP_init (int (length b)) (Some b) = Inr (csp, st)"
    and c: "completion b g"
  shows "total_valid csp (assignment_of csp g)"
proof -
  note bo = built_on [OF init]
  note sq = well_formedD(1) [OF wf]
  note sv = completionD(4) [OF c]
  have vc: "k \<in> set (cells (length b)) \<and> cell_value b k = 0" if "k \<in> set (variables csp)" for k
    using that by (simp add: bo(3))
  have adm: "admissible csp k (cell_value g k)" if k: "k \<in> set (variables csp)" for k
  proof -
    from solved_values [OF sv] vc [OF k]
    have rng: "1 \<le> cell_value g k \<and> cell_value g k \<le> int (length b)" by blast
    have "\<not> clashes b (box_size csp) (cells (length b)) k (cell_value g k)"
    proof
      assume "clashes b (box_size csp) (cells (length b)) k (cell_value g k)"
      then obtain k' where k': "k' \<in> set (cells (length b))" "cell_value b k' \<noteq> 0"
        "cell_value b k' = cell_value g k" "shares_unit (isqrt (length b)) k k'"
        unfolding clashes_def bo(2) by blast
      from k'(2) vc [OF k] have ne: "k \<noteq> k'" by auto
      from solved_distinct [OF sv sq _ k'(1) ne k'(4)] vc [OF k]
      have "cell_value g k \<noteq> cell_value g k'" by blast
      with completionD(3) [OF c k'(1,2)] k'(3) show False by simp
    qed
    with rng k show ?thesis by (simp add: bo(4))
  qed
  show ?thesis unfolding total_valid_def
  proof (intro conjI allI impI)
    show "dom (assignment_of csp g) = set (variables csp)"
      by (auto simp: assignment_of_def dom_def)
  next
    fix k x assume "assignment_of csp g k = Some x"
    then have "k \<in> set (variables csp)" "x = cell_value g k"
      by (auto simp: assignment_of_def split: if_splits)
    with adm show "admissible csp k x" by simp
  next
    fix k k' assume h: "k \<noteq> k' \<and> shares_unit (box_size csp) k k' \<and> assignment_of csp g k \<noteq> None"
    then have k: "k \<in> set (variables csp)" by (auto simp: assignment_of_def split: if_splits)
    show "assignment_of csp g k \<noteq> assignment_of csp g k'"
    proof (cases "k' \<in> set (variables csp)")
      case False
      with k show ?thesis by (simp add: assignment_of_def)
    next
      case True
      from solved_distinct [OF sv sq _ _ _ _] vc [OF k] vc [OF True] h
      have "cell_value g k \<noteq> cell_value g k'" by (simp add: bo(2))
      with k True show ?thesis by (simp add: assignment_of_def)
    qed
  qed
qed

lemma merge_assignment_of:
  assumes init: "SudokuCSP_init (int (length b)) (Some b) = Inr (csp, st)" and c: "completion b g"
  shows "merge b (length b) (assignment_of csp g) = g"
proof (rule nth_equalityI)
  show "length (merge b (length b) (assignment_of csp g)) = length g"
    by (simp add: merge_def completionD(1) [OF c])
next
  fix r assume "r < length (merge b (length b) (assignment_of csp g))"
  then have r: "r < length b" by (simp add: merge_def)
  then have gr: "length (g ! r) = length b"
    using completionD(1,2) [OF c] by simp
  show "merge b (length b) (assignment_of csp g) ! r = g ! r"
  proof (rule nth_equalityI)
    show "length (merge b (length b) (assignment_of csp g) ! r) = length (g ! r)"
      using r gr by (simp add: merge_def)
  next
    fix c' assume "c' < length (merge b (length b) (assignment_of csp g) ! r)"
    then have c': "c' < length b" using r by (simp add: merge_def)
    then have k: "(r, c') \<in> set (cells (length b))" using r by (simp add: cells_set)
    have "cell_value (merge b (length b) (assignment_of csp g)) (r, c') = cell_value g (r, c')"
    proof (cases "(r, c') \<in> set (variables csp)")
      case True
      then show ?thesis by (simp add: cell_value_merge [OF k] assignment_of_def)
    next
      case False
      with k have "cell_value b (r, c') \<noteq> 0" by (simp add: built_on(3) [OF init])
      from completionD(3) [OF c k this] False show ?thesis
        by (simp add: cell_value_merge [OF k] assignment_of_def)
    qed
    then show "merge b (length b) (assignment_of csp g) ! r ! c' = g ! r ! c'"
      by (simp add: cell_value_def)
  qed
qed

lemma assignment_of_merge:
  assumes init: "SudokuCSP_init (int (length b)) (Some b) = Inr (csp, st)" and tv: "total_valid csp m"
  shows "assignment_of csp (merge b (length b) m) = m"
proof
  fix k
  show "assignment_of csp (merge b (length b) m) k = m k"
  proof (cases "k \<in> set (variables csp)")
    case False
    with total_validD(1) [OF tv] have "m k = None" by blast
    with False show ?thesis by (simp add: assignment_of_def)
  next
    case True
    with total_validD(1) [OF tv] obtain x where x: "m k = Some x" by blast
    from True have "k \<in> set (cells (length b))" by (simp add: built_on(3) [OF init])
    from cell_value_merge [OF this, of b m] x True show ?thesis by (simp add: assignment_of_def)
  qed
qed

lemma merged_completion:
  assumes wf: "well_formed b" and init: "SudokuCSP_init (int (length b)) (Some b) = Inr (csp, st)"
    and tv: "total_valid csp m"
  shows "completion b (merge b (length b) m)"
  unfolding completion_def
proof (intro conjI ballI impI)
  show "length (merge b (length b) m) = length b" by (rule merge_shape(1))
next
  fix row assume "row \<in> set (merge b (length b) m)"
  with merge_shape(2) show "length row = length b" by blast
next
  fix k assume k: "k \<in> set (cells (length b))" "cell_value b k \<noteq> 0"
  then have "k \<notin> set (variables csp)" by (simp add: built_on(3) [OF init])
  with total_validD(1) [OF tv] have "m k = None" by blast
  then show "cell_value (merge b (length b) m) k = cell_value b k"
    by (simp add: cell_value_merge [OF k(1)])
next
  from merged_solved [OF wf init tv] show "solved (length b) (isqrt (length b)) (merge b (length b) m)"
    by (simp add: built_on(2) [OF init])
qed

lemma unique_completion_iff:
  assumes wf: "well_formed b" and init: "SudokuCSP_init (int (length b)) (Some b) = Inr (csp, st)"
  shows "(\<exists>!g. completion b g) = (\<exists>!m. total_valid csp m)"
proof
  assume "\<exists>!g. completion b g"
  then obtain g where g: "completion b g" "\<And>g'. completion b g' \<Longrightarrow> g' = g" by blast
  show "\<exists>!m. total_valid csp m"
  proof (rule ex1I)
    show "total_valid csp (assignment_of csp g)" by (rule completion_total_valid [OF wf init g(1)])
  next
    fix m assume m: "total_valid csp m"
    from g(2) [OF merged_completion [OF wf init m]] assignment_of_merge [OF init m]
    show "m = assignment_of csp g" by simp
  qed
next
  assume "\<exists>!m. total_valid csp m"
  then obtain m where m: "total_valid csp m" "\<And>m'. total_valid csp m' \<Longrightarrow> m' = m" by blast
  show "\<exists>!g. completion b g"
  proof (rule ex1I)
    show "completion b (merge b (length b) m)" by (rule merged_completion [OF wf init m(1)])
  next
    fix g assume g: "completion b g"
    from m(2) [OF completion_total_valid [OF wf init g]] merge_assignment_of [OF init g]
    show "g = merge b (length b) m" by simp
  qed
qed

lemma length_sols: "length (sols es) = count_events is_solution es"
  by (induction es rule: sols.induct) simp_all

lemma consume_closed:
  "n \<le> 1 \<Longrightarrow> consume es n =
     (if 2 \<le> n + count_events is_solution es then Inl False
      else Inr (n + count_events is_solution es))"
proof (induction es n rule: consume.induct)
  case (1 n)
  then show ?case by simp
next
  case (2 s es n)
  show ?case
  proof (cases "n = 0")
    case True
    with "2.IH" show ?thesis by simp
  next
    case False
    with "2.prems" show ?thesis by simp
  qed
qed simp_all

lemma consume_short_circuit:
  assumes "2 \<le> count_events is_solution es"
  shows "consume (es @ es') 0 = Inl False"
  using assms by (simp add: consume_closed)

lemma length_one_iff:
  assumes "distinct xs"
  shows "(length xs = 1) = (\<exists>!x. x \<in> set xs)"
proof
  assume "length xs = 1"
  then obtain x where "xs = [x]" by (cases xs) auto
  then show "\<exists>!x. x \<in> set xs" by simp
next
  assume "\<exists>!x. x \<in> set xs"
  then obtain x where "set xs = {x}" by blast
  then have "card (set xs) = 1" by simp
  with assms show "length xs = 1" by (simp add: distinct_card)
qed

lemma is_valid_puzzle_closed:
  assumes init: "SudokuCSP_init (int (length b)) (Some b) = Inr (csp, st)"
  shows "is_valid_puzzle b = Inr (\<exists>!m. total_valid csp m)"
proof -
  let ?r = "backtrack_generator csp st"
  note f = built_found [OF init, of st]
  have c: "count_events is_solution (events ?r) = length (found ?r)"
    by (simp add: found_def length_sols)
  have e: "err ?r = None" by (rule built_no_error [OF init])
  have "(length (found ?r) = 1) = (\<exists>!m. m \<in> set (found ?r))"
    using f by (intro length_one_iff) simp
  also have "\<dots> = (\<exists>!m. total_valid csp m)" using f by simp
  finally have one: "(length (found ?r) = 1) = (\<exists>!m. total_valid csp m)" .
  have "is_valid_puzzle b = Inr (length (found ?r) = 1)"
    unfolding is_valid_puzzle_def init using e
    by (simp add: Let_def consume_closed c)
  with one show ?thesis by simp
qed

section \<open>Facts about the store\<close>

lemma copy_lists_frame:
  assumes "copy_lists es h = Inr (d, h')" "n \<le> length h"
  shows "take n h' = take n h \<and> length h \<le> length h' \<and> (\<forall>(k, a) \<in> set d. length h \<le> a)"
  using assms
proof (induction es arbitrary: h d)
  case Nil
  then show ?case by simp
next
  case (Cons p es)
  obtain k a where p: "p = (k, a)" by (cases p)
  from Cons.prems(1) obtain xs d0 where xs: "get_list h a = Inr xs"
    and rest: "copy_lists es (h @ [IntList xs]) = Inr (d0, h')" and d: "d = (k, length h) # d0"
    unfolding p by (auto simp: alloc_def split: sum.splits)
  from Cons.IH [OF rest] Cons.prems(2)
  have "take n h' = take n (h @ [IntList xs])" "length (h @ [IntList xs]) \<le> length h'"
    "\<forall>(k, a) \<in> set d0. length (h @ [IntList xs]) \<le> a" by simp_all
  with Cons.prems(2) show ?case unfolding d by auto
qed

lemma empty_lists_frame:
  assumes "empty_lists es h = (d, h')" "n \<le> length h"
  shows "take n h' = take n h \<and> length h \<le> length h' \<and> (\<forall>(k, a) \<in> set d. length h \<le> a)"
  using assms
proof (induction es arbitrary: h d)
  case Nil
  then show ?case by simp
next
  case (Cons p es)
  obtain k a where p: "p = (k, a)" by (cases p)
  from Cons.prems(1) obtain d0 where
    rest: "empty_lists es (h @ [IntList []]) = (d0, h')" and d: "d = (k, length h) # d0"
    unfolding p by (auto simp: alloc_def split: prod.splits)
  from Cons.IH [OF rest] Cons.prems(2)
  have "take n h' = take n (h @ [IntList []])" "length (h @ [IntList []]) \<le> length h'"
    "\<forall>(k, a) \<in> set d0. length (h @ [IntList []]) \<le> a" by simp_all
  with Cons.prems(2) show ?case unfolding d by auto
qed

lemma get_dict_update_list:
  "get_dict (h[a := IntList xs]) r = Inr es \<Longrightarrow> get_dict h r = Inr es"
  by (cases "r = a") (auto simp: get_dict_def split: if_splits)

lemma lists_from_update: "lists_from n0 r h \<Longrightarrow> lists_from n0 r (h[a := IntList xs])"
  unfolding lists_from_def using get_dict_update_list by blast

lemma loop_h_skip:
  "k = var \<or> same_unit bs k var = Inr False \<Longrightarrow>
   forward_check_loop_h bs var v (k # ks) nd_ref rm_ref h =
   forward_check_loop_h bs var v ks nd_ref rm_ref h"
  by (cases "k = var") auto

lemma loop_h_keep:
  assumes "k \<noteq> var" "same_unit bs k var = Inr True" "get_dict h nd_ref = Inr nd"
    "map_of nd k = Some a" "get_list h a = Inr d" "v \<notin> set d"
  shows "forward_check_loop_h bs var v (k # ks) nd_ref rm_ref h =
     (if d = [] then Inr ((None, rm_ref), h)
      else forward_check_loop_h bs var v ks nd_ref rm_ref h)"
  using assms by simp

lemma loop_h_remove:
  assumes "k \<noteq> var" "same_unit bs k var = Inr True" "get_dict h nd_ref = Inr nd"
    "map_of nd k = Some a" "get_list h a = Inr d" "v \<in> set d"
    "get_dict (h[a := IntList (remove1 v d)]) rm_ref = Inr rm" "map_of rm k = Some ra"
    "get_list (h[a := IntList (remove1 v d)]) ra = Inr rl"
    "get_list (h[a := IntList (remove1 v d), ra := IntList (rl @ [v])]) a = Inr d2"
  shows "forward_check_loop_h bs var v (k # ks) nd_ref rm_ref h =
     (if d2 = [] then Inr ((None, rm_ref), h[a := IntList (remove1 v d), ra := IntList (rl @ [v])])
      else forward_check_loop_h bs var v ks nd_ref rm_ref
             (h[a := IntList (remove1 v d), ra := IntList (rl @ [v])]))"
  using assms by (simp add: Let_def)

lemma loop_h_Inr:
  assumes "forward_check_loop_h bs var v (k # ks) nd_ref rm_ref h = Inr out"
    "k \<noteq> var" "same_unit bs k var \<noteq> Inr False"
  obtains (keep) nd a d where "same_unit bs k var = Inr True" "get_dict h nd_ref = Inr nd"
      "map_of nd k = Some a" "get_list h a = Inr d" "v \<notin> set d"
  | (remove) nd a d rm ra rl d2 where "same_unit bs k var = Inr True" "get_dict h nd_ref = Inr nd"
      "map_of nd k = Some a" "get_list h a = Inr d" "v \<in> set d"
      "get_dict (h[a := IntList (remove1 v d)]) rm_ref = Inr rm" "map_of rm k = Some ra"
      "get_list (h[a := IntList (remove1 v d)]) ra = Inr rl"
      "get_list (h[a := IntList (remove1 v d), ra := IntList (rl @ [v])]) a = Inr d2"
proof -
  from assms obtain nd a d where f: "same_unit bs k var = Inr True" "get_dict h nd_ref = Inr nd"
      "map_of nd k = Some a" "get_list h a = Inr d"
    by (auto split: sum.splits option.splits bool.splits)
  show ?thesis
  proof (cases "v \<in> set d")
    case False
    with f keep show ?thesis by blast
  next
    case True
    with assms(1,2) f obtain rm ra rl d2 where
      "get_dict (h[a := IntList (remove1 v d)]) rm_ref = Inr rm" "map_of rm k = Some ra"
      "get_list (h[a := IntList (remove1 v d)]) ra = Inr rl"
      "get_list (h[a := IntList (remove1 v d), ra := IntList (rl @ [v])]) a = Inr d2"
      by (auto simp: Let_def split: sum.splits option.splits)
    with f True remove show ?thesis by blast
  qed
qed

lemma forward_check_loop_h_frame:
  assumes "forward_check_loop_h bs var v ks nd_ref rm_ref h = Inr (res, h')"
    "lists_from n0 nd_ref h" "lists_from n0 rm_ref h"
  shows "take n0 h' = take n0 h \<and> length h' = length h \<and>
         lists_from n0 nd_ref h' \<and> lists_from n0 rm_ref h' \<and>
         snd res = rm_ref \<and> (fst res = None \<or> fst res = Some nd_ref)"
  using assms
proof (induction ks arbitrary: h)
  case Nil
  then show ?case by auto
next
  case (Cons k ks)
  show ?case
  proof (cases "k = var \<or> same_unit bs k var = Inr False")
    case True
    from Cons.prems(1) [unfolded loop_h_skip [OF True]] Cons.IH Cons.prems(2,3)
    show ?thesis by blast
  next
    case False
    then have kv: "k \<noteq> var" and su: "same_unit bs k var \<noteq> Inr False" by simp_all
    from Cons.prems(1) kv su show ?thesis
    proof (cases rule: loop_h_Inr)
      case (keep nd a d)
      from Cons.prems(1) [unfolded loop_h_keep [OF kv keep]]
      have "(h' = h \<and> res = (None, rm_ref)) \<or>
            forward_check_loop_h bs var v ks nd_ref rm_ref h = Inr (res, h')"
        by (auto split: if_splits)
      with Cons.IH [OF _ Cons.prems(2,3)] Cons.prems(2,3) show ?thesis by auto
    next
      case (remove nd a d rm ra rl d2)
      let ?h1 = "h[a := IntList (remove1 v d)]"
      let ?h2 = "?h1[ra := IntList (rl @ [v])]"
      from map_of_SomeD [OF remove(3)] Cons.prems(2) remove(2) have na: "n0 \<le> a"
        unfolding lists_from_def by blast
      from map_of_SomeD [OF remove(7)] lists_from_update [OF Cons.prems(3), of a "remove1 v d"] remove(6)
      have nra: "n0 \<le> ra" unfolding lists_from_def by blast
      have fr: "take n0 ?h2 = take n0 h" "length ?h2 = length h" using na nra by simp_all
      note l2 = lists_from_update [OF lists_from_update [OF Cons.prems(2)], of a "remove1 v d" ra "rl @ [v]"]
        lists_from_update [OF lists_from_update [OF Cons.prems(3)], of a "remove1 v d" ra "rl @ [v]"]
      from Cons.prems(1) [unfolded loop_h_remove [OF kv remove]]
      have "(h' = ?h2 \<and> res = (None, rm_ref)) \<or>
            forward_check_loop_h bs var v ks nd_ref rm_ref ?h2 = Inr (res, h')"
        by (auto split: if_splits)
      then show ?thesis
      proof
        assume "h' = ?h2 \<and> res = (None, rm_ref)"
        with fr l2 show ?thesis by simp
      next
        assume "forward_check_loop_h bs var v ks nd_ref rm_ref ?h2 = Inr (res, h')"
        from Cons.IH [OF this l2] fr show ?thesis by simp
      qed
    qed
  qed
qed

lemma frame_nth:
  assumes "take (length h) h' = h" "a < length h"
  shows "a < length h'" "h' ! a = h ! a"
proof -
  from assms(1) have "length (take (length h) h') = length h" by simp
  then have "length h \<le> length h'" by simp
  with assms(2) show "a < length h'" by simp
  from assms show "h' ! a = h ! a" by (metis nth_take)
qed

lemma frame_get_list:
  assumes "take (length h) h' = h" "get_list h a = Inr xs"
  shows "get_list h' a = Inr xs"
proof -
  from assms(2) have a: "a < length h" by (auto simp: get_list_def split: if_splits)
  from frame_nth [OF assms(1) a] assms(2) a show ?thesis by (simp add: get_list_def)
qed

lemma frame_get_dict:
  assumes "take (length h) h' = h" "get_dict h a = Inr es"
  shows "get_dict h' a = Inr es"
proof -
  from assms(2) have a: "a < length h" by (auto simp: get_dict_def split: if_splits)
  from frame_nth [OF assms(1) a] assms(2) a show ?thesis by (simp add: get_dict_def)
qed

lemma frame_read_entries:
  assumes "take (length h) h' = h" "read_entries h es = Inr doms"
  shows "read_entries h' es = Inr doms"
  using assms(2)
proof (induction es arbitrary: doms)
  case Nil
  then show ?case by simp
next
  case (Cons p es)
  obtain k a where p: "p = (k, a)" by (cases p)
  from Cons.prems obtain xs d where xs: "get_list h a = Inr xs" and d: "read_entries h es = Inr d"
    and doms: "doms = (k, xs) # d"
    unfolding p by (auto split: sum.splits)
  from frame_get_list [OF assms(1) xs] Cons.IH [OF d] show ?case unfolding p doms by simp
qed

lemma frame_read_domains:
  assumes "take (length h) h' = h" "read_domains h a = Inr doms"
  shows "read_domains h' a = Inr doms"
proof -
  from assms(2) obtain es where es: "get_dict h a = Inr es" "read_entries h es = Inr doms"
    by (auto simp: read_domains_def split: sum.splits)
  from frame_get_dict [OF assms(1) es(1)] frame_read_entries [OF assms(1) es(2)]
  show ?thesis by (simp add: read_domains_def)
qed

lemma forward_check_h_frame:
  assumes "forward_check_h csp var v domains h = Inr (res, h')"
  shows "take (length h) h' = h"
    and "length h \<le> snd res \<and> lists_from (length h) (snd res) h'"
    and "fst res = Some r \<Longrightarrow> length h \<le> r \<and> lists_from (length h) r h'"
proof -
  let ?n = "length h"
  from assms obtain es nd h1 where es: "get_dict h domains = Inr es"
    and cp: "copy_lists es h = Inr (nd, h1)"
    by (auto simp: forward_check_h_def split: sum.splits)
  obtain rm h3 where el: "empty_lists es (h1 @ [Dict nd]) = (rm, h3)"
    by (cases "empty_lists es (h1 @ [Dict nd])")
  let ?nd_ref = "length h1" and ?rm_ref = "length h3"
  let ?single = "Suc (length h3)"
  let ?h5 = "h3 @ [Dict rm] @ [IntList [v]]"
  let ?h6 = "?h5[?nd_ref := Dict (AList.update var ?single nd)]"
  from assms es cp el
  have run: "forward_check_loop_h (box_size csp) var v (variables csp) ?nd_ref ?rm_ref ?h6
      = Inr (res, h')"
    by (simp add: forward_check_h_def alloc_def)
  from copy_lists_frame [OF cp, of ?n]
  have c: "take ?n h1 = h" "?n \<le> length h1" "\<forall>(k, a) \<in> set nd. ?n \<le> a" by simp_all
  from empty_lists_frame [OF el, of ?n] c(2)
  have e: "take ?n h3 = take ?n (h1 @ [Dict nd])" "length (h1 @ [Dict nd]) \<le> length h3"
    "\<forall>(k, a) \<in> set rm. length (h1 @ [Dict nd]) \<le> a" by simp_all
  from e(2) have lt: "?nd_ref < length h3" by simp
  have t6: "take ?n ?h6 = h" using c(1,2) e(1) lt by simp
  have nd6: "get_dict ?h6 ?nd_ref = Inr (AList.update var ?single nd)"
    using lt by (simp add: get_dict_def)
  have rm6: "get_dict ?h6 ?rm_ref = Inr rm"
    using lt by (simp add: get_dict_def nth_append)
  have "\<forall>(k, a) \<in> set (AList.update var ?single nd). ?n \<le> a"
    using c(3) set_update_subset [of var ?single nd] c(2) e(2) by auto
  with nd6 have l1: "lists_from ?n ?nd_ref ?h6" by (simp add: lists_from_def)
  have "\<forall>(k, a) \<in> set rm. ?n \<le> a" using e(3) c(2) by auto
  with rm6 have l2: "lists_from ?n ?rm_ref ?h6" by (simp add: lists_from_def)
  note fr = forward_check_loop_h_frame [OF run l1 l2]
  from fr t6 show "take (length h) h' = h" by simp
  from fr c(2) lt show "length h \<le> snd res \<and> lists_from (length h) (snd res) h'" by simp
  assume "fst res = Some r"
  with fr c(2) show "length h \<le> r \<and> lists_from (length h) r h'" by auto
qed

section \<open>Facts about the constructor on the store\<close>

lemma keeps_refl: "keeps A h h"
  by (simp add: keeps_def)

lemma keeps_trans: "keeps A h h1 \<Longrightarrow> keeps A h1 h2 \<Longrightarrow> keeps A h h2"
  unfolding keeps_def by (metis le_trans less_le_trans)

lemma keeps_mono: "keeps A h h' \<Longrightarrow> C \<subseteq> A \<Longrightarrow> keeps C h h'"
  unfolding keeps_def by blast

lemma keeps_append: "keeps A h (h @ ys)"
  by (simp add: keeps_def nth_append)

lemma keeps_update: "a \<notin> A \<Longrightarrow> keeps A h (h[a := x])"
  unfolding keeps_def by (metis length_list_update nth_list_update_neq order_refl)

lemma keeps_take:
  assumes "keeps {..<length h} h h'"
  shows "take (length h) h' = h"
proof (rule nth_equalityI)
  from assms show "length (take (length h) h') = length h" by (simp add: keeps_def)
next
  fix i assume "i < length (take (length h) h')"
  then have i: "i < length h" by simp
  with assms have "h' ! i = h ! i" unfolding keeps_def by blast
  with i show "take (length h) h' ! i = h ! i" by simp
qed

lemma keeps_nth:
  assumes "keeps A h h'" "a \<in> A" "a < length h"
  shows "a < length h'" "h' ! a = h ! a"
  using assms unfolding keeps_def by (force, blast)

lemma keeps_get_list:
  assumes "keeps A h h'" "a \<in> A" "get_list h a = Inr xs"
  shows "get_list h' a = Inr xs"
proof -
  from assms(3) have a: "a < length h" by (auto simp: get_list_def split: if_splits)
  from keeps_nth [OF assms(1,2) a] assms(3) a show ?thesis by (simp add: get_list_def)
qed

lemma keeps_get_dict:
  assumes "keeps A h h'" "a \<in> A" "get_dict h a = Inr xs"
  shows "get_dict h' a = Inr xs"
proof -
  from assms(3) have a: "a < length h" by (auto simp: get_dict_def split: if_splits)
  from keeps_nth [OF assms(1,2) a] assms(3) a show ?thesis by (simp add: get_dict_def)
qed

lemma keeps_get_rows:
  assumes "keeps A h h'" "a \<in> A" "get_rows h a = Inr xs"
  shows "get_rows h' a = Inr xs"
proof -
  from assms(3) have a: "a < length h" by (auto simp: get_rows_def split: if_splits)
  from keeps_nth [OF assms(1,2) a] assms(3) a show ?thesis by (simp add: get_rows_def)
qed

lemma keeps_read_entries:
  assumes "keeps A h h'"
  shows "snd ` set es \<subseteq> A \<Longrightarrow> read_entries h es = Inr doms \<Longrightarrow> read_entries h' es = Inr doms"
proof (induction es arbitrary: doms)
  case Nil
  then show ?case by simp
next
  case (Cons p es)
  obtain k a where p: "p = (k, a)" by (cases p)
  from Cons.prems(2) obtain xs d where xs: "get_list h a = Inr xs"
    and d: "read_entries h es = Inr d" and doms: "doms = (k, xs) # d"
    unfolding p by (auto split: sum.splits)
  from Cons.prems(1) have a: "a \<in> A" and sub: "snd ` set es \<subseteq> A" unfolding p by simp_all
  from keeps_get_list [OF assms a xs] Cons.IH [OF sub d] show ?case unfolding p doms by simp
qed

lemma keeps_read_rows:
  assumes "keeps A h h'"
  shows "set rs \<subseteq> A \<Longrightarrow> read_rows h rs = Inr B \<Longrightarrow> read_rows h' rs = Inr B"
proof (induction rs arbitrary: B)
  case Nil
  then show ?case by simp
next
  case (Cons a rs)
  from Cons.prems(2) obtain xs B0 where xs: "get_list h a = Inr xs"
    and d: "read_rows h rs = Inr B0" and B: "B = xs # B0"
    by (auto split: sum.splits)
  from Cons.prems(1) have a: "a \<in> A" and sub: "set rs \<subseteq> A" by simp_all
  from keeps_get_list [OF assms a xs] Cons.IH [OF sub d] show ?case unfolding B by simp
qed

lemma keeps_grid_rel: "keeps A h h' \<Longrightarrow> grid_rel A b h B \<Longrightarrow> grid_rel A b h' B"
  unfolding grid_rel_def using keeps_get_rows keeps_read_rows by blast

lemma read_rows_length: "read_rows h rs = Inr B \<Longrightarrow> length B = length rs"
  by (induction rs arbitrary: B) (auto split: sum.splits)

lemma read_rows_nth:
  "read_rows h rs = Inr B \<Longrightarrow> r < length rs \<Longrightarrow> get_list h (rs ! r) = Inr (B ! r)"
proof (induction rs arbitrary: B r)
  case Nil
  then show ?case by simp
next
  case (Cons a rs)
  from Cons.prems(1) obtain xs B0 where xs: "get_list h a = Inr xs"
    and d: "read_rows h rs = Inr B0" and B: "B = xs # B0"
    by (auto split: sum.splits)
  show ?case
  proof (cases r)
    case 0
    with xs B show ?thesis by simp
  next
    case (Suc r')
    with Cons.prems(2) have "r' < length rs" by simp
    from Cons.IH [OF d this] Suc B show ?thesis by simp
  qed
qed

lemma board_at_read:
  assumes "get_rows h b = Inr rs" "read_rows h rs = Inr B"
  shows "board_at_h h b r c = board_at B r c"
proof (cases "r < length rs")
  case True
  from read_rows_nth [OF assms(2) True] read_rows_length [OF assms(2)] True assms(1)
  show ?thesis by (simp add: board_at_h_def board_at_def)
next
  case False
  with read_rows_length [OF assms(2)] assms(1)
  show ?thesis by (simp add: board_at_h_def board_at_def)
qed

lemma read_entries_lists:
  "read_entries h es = Inr doms \<Longrightarrow> a \<in> snd ` set es \<Longrightarrow> \<exists>xs. get_list h a = Inr xs"
proof (induction es arbitrary: doms)
  case Nil
  then show ?case by simp
next
  case (Cons p es)
  obtain k a' where p: "p = (k, a')" by (cases p)
  from Cons.prems(1) obtain xs d where xs: "get_list h a' = Inr xs"
    and d: "read_entries h es = Inr d"
    unfolding p by (auto split: sum.splits)
  from Cons.prems(2) have "a = a' \<or> a \<in> snd ` set es" unfolding p by auto
  with xs Cons.IH [OF d] show ?case by blast
qed

lemma list_not_dict: "get_list h a = Inr xs \<Longrightarrow> get_dict h a = Inr es \<Longrightarrow> False"
  by (auto simp: get_list_def get_dict_def split: if_splits obj.splits)

lemma rows_not_dict: "get_rows h a = Inr xs \<Longrightarrow> get_dict h a = Inr es \<Longrightarrow> False"
  by (auto simp: get_rows_def get_dict_def split: if_splits obj.splits)

lemma read_entries_update:
  "read_entries h es = Inr doms \<Longrightarrow> get_list h a = Inr xs \<Longrightarrow>
   read_entries h (AList.update k a es) = Inr (AList.update k xs doms)"
proof (induction es arbitrary: doms)
  case Nil
  then show ?case by simp
next
  case (Cons p es)
  obtain k' a' where p: "p = (k', a')" by (cases p)
  from Cons.prems(1) obtain ys d where ys: "get_list h a' = Inr ys"
    and d: "read_entries h es = Inr d" and doms: "doms = (k', ys) # d"
    unfolding p by (auto split: sum.splits)
  from Cons.IH [OF d Cons.prems(2)] ys d Cons.prems(2) show ?case unfolding p doms by simp
qed

lemma update_snd_subset: "snd ` set (AList.update k a es) \<subseteq> insert a (snd ` set es)"
  by (induction es) auto

lemma distinct_update_snd:
  "distinct (map snd es) \<Longrightarrow> a \<notin> snd ` set es \<Longrightarrow> distinct (map snd (AList.update k a es))"
proof (induction es)
  case Nil
  then show ?case by simp
next
  case (Cons p es)
  obtain k' a' where p: "p = (k', a')" by (cases p)
  from Cons.prems have d: "distinct (map snd es)" and a: "a \<notin> snd ` set es" and ne: "a \<noteq> a'"
    and a': "a' \<notin> snd ` set es" unfolding p by auto
  from update_snd_subset [of k a es] a' ne have "a' \<notin> snd ` set (AList.update k a es)" by blast
  with Cons.IH [OF d a] d a' a show ?case unfolding p by simp
qed

lemma get_list_bound: "get_list h a = Inr xs \<Longrightarrow> a < length h \<and> h ! a = IntList xs"
  by (auto simp: get_list_def split: if_splits obj.splits)

lemma get_dict_bound: "get_dict h a = Inr xs \<Longrightarrow> a < length h \<and> h ! a = Dict xs"
  by (auto simp: get_dict_def split: if_splits obj.splits)

lemma get_rows_bound: "get_rows h a = Inr xs \<Longrightarrow> a < length h \<and> h ! a = Rows xs"
  by (auto simp: get_rows_def split: if_splits obj.splits)

lemma remove_conflicts_h_refines:
  assumes "distinct (map snd es)" "read_entries h es = Inr doms"
  shows "case remove_conflicts bs rc v doms of
           Inl e \<Rightarrow> remove_conflicts_h bs rc v es h = Inl e
         | Inr doms' \<Rightarrow>
             \<exists>h'. remove_conflicts_h bs rc v es h = Inr h' \<and> length h' = length h \<and>
                  (\<forall>a. a \<notin> snd ` set es \<longrightarrow> h' ! a = h ! a) \<and>
                  read_entries h' es = Inr doms'"
  using assms
proof (induction es arbitrary: h doms)
  case Nil
  then show ?case by simp
next
  case (Cons p es)
  obtain k a where p: "p = (k, a)" by (cases p)
  from Cons.prems(2) obtain xs d0 where xs: "get_list h a = Inr xs"
    and d0: "read_entries h es = Inr d0" and doms: "doms = (k, xs) # d0"
    unfolding p by (auto split: sum.splits)
  from Cons.prems(1) have dist: "distinct (map snd es)" and fresh: "a \<notin> snd ` set es"
    unfolding p by auto
  note ab = get_list_bound [OF xs]
  show ?case
  proof (cases "same_unit bs k rc")
    case (Inl e)
    then show ?thesis unfolding p doms by simp
  next
    case (Inr bb)
    let ?ys = "if bb \<and> v \<in> set xs then remove1 v xs else xs"
    let ?h1 = "if bb \<and> v \<in> set xs then h[a := IntList (remove1 v xs)] else h"
    have step: "remove_conflicts_h bs rc v ((k, a) # es) h = remove_conflicts_h bs rc v es ?h1"
      using Inr xs by (cases bb) simp_all
    have len1: "length ?h1 = length h" by simp
    have a1: "?h1 ! a = IntList ?ys" using ab by simp
    have other: "\<And>c. c \<noteq> a \<Longrightarrow> ?h1 ! c = h ! c" by simp
    have "keeps (snd ` set es) h ?h1"
      using fresh keeps_update [of a "snd ` set es" h] keeps_refl [of "snd ` set es" h]
      by (cases "bb \<and> v \<in> set xs") simp_all
    from keeps_read_entries [OF this subset_refl d0]
    have d1: "read_entries ?h1 es = Inr d0" .
    note IH = Cons.IH [OF dist d1]
    show ?thesis
    proof (cases "remove_conflicts bs rc v d0")
      case (Inl e)
      with IH have "remove_conflicts_h bs rc v es ?h1 = Inl e" by simp
      with step Inr Inl show ?thesis unfolding p doms by simp
    next
      case rest: (Inr rest')
      with IH obtain h' where run: "remove_conflicts_h bs rc v es ?h1 = Inr h'"
        and len: "length h' = length ?h1"
        and same: "\<forall>c. c \<notin> snd ` set es \<longrightarrow> h' ! c = ?h1 ! c"
        and rd: "read_entries h' es = Inr rest'"
        by auto
      from same fresh a1 have "h' ! a = IntList ?ys" by metis
      with len len1 ab have ga: "get_list h' a = Inr ?ys" by (simp add: get_list_def)
      have pure: "remove_conflicts bs rc v doms = Inr ((k, ?ys) # rest')"
        unfolding doms using Inr rest by simp
      have rd': "read_entries h' ((k, a) # es) = Inr ((k, ?ys) # rest')"
        using ga rd by simp
      have same': "\<forall>c. c \<notin> snd ` set ((k, a) # es) \<longrightarrow> h' ! c = h ! c"
      proof (intro allI impI)
        fix c assume "c \<notin> snd ` set ((k, a) # es)"
        then have c: "c \<noteq> a" "c \<notin> snd ` set es" by auto
        from same c(2) have "h' ! c = ?h1 ! c" by blast
        with other [OF c(1)] show "h' ! c = h ! c" by simp
      qed
      from run step have run': "remove_conflicts_h bs rc v ((k, a) # es) h = Inr h'" by simp
      from len len1 have len': "length h' = length h" by simp
      show ?thesis unfolding p pure using run' len' same' rd' by simp
    qed
  qed
qed

lemma update_sndD: "a \<in> snd ` set (AList.update k v es) \<Longrightarrow> a = v \<or> a \<in> snd ` set es"
  using update_snd_subset [of k v es] by (meson insertE subsetD)

lemma dict_not_entry:
  assumes "get_dict h d = Inr es0" "read_entries h es = Inr doms"
  shows "d \<notin> snd ` set es"
proof
  assume "d \<in> snd ` set es"
  from read_entries_lists [OF assms(2) this] obtain xs where "get_list h d = Inr xs" ..
  from list_not_dict [OF this assms(1)] show False .
qed

lemma entries_bound:
  assumes "read_entries h es = Inr doms" "a \<in> snd ` set es"
  shows "a < length h"
proof -
  from read_entries_lists [OF assms] obtain xs where "get_list h a = Inr xs" ..
  from get_list_bound [OF this] show ?thesis by simp
qed

lemma setup_variables_h_refines:
  assumes "grid_rel A b h B" "dict_rel m d h doms" "m \<le> length h" "A = {..<m} - {d}"
  shows "case setup_variables B n cs (vars, doms) of
           Inl e \<Rightarrow> setup_variables_h n b d cs vars h = Inl e
         | Inr res \<Rightarrow>
             \<exists>h'. setup_variables_h n b d cs vars h = Inr (fst res, h') \<and> keeps A h h' \<and>
                  dict_rel m d h' (snd res)"
  using assms(1,2,3)
proof (induction cs arbitrary: vars doms h)
  case Nil
  then show ?case by (simp add: keeps_refl)
next
  case (Cons p cs)
  obtain r c where p: "p = (r, c)" by (cases p)
  from Cons.prems(1) obtain rs where rs: "get_rows h b = Inr rs" "read_rows h rs = Inr B"
    unfolding grid_rel_def by blast
  note at = board_at_read [OF rs, of r c]
  show ?case
  proof (cases "board_at B r c")
    case (Inl e)
    with at show ?thesis unfolding p by simp
  next
    case (Inr x)
    show ?thesis
    proof (cases "x = 0")
      case False
      have step: "setup_variables_h n b d ((r, c) # cs) vars h = setup_variables_h n b d cs vars h"
        using at Inr False by simp
      have pure: "setup_variables B n ((r, c) # cs) (vars, doms) = setup_variables B n cs (vars, doms)"
        using Inr False by simp
      show ?thesis unfolding p step pure using Cons.IH [OF Cons.prems] .
    next
      case True
      from Cons.prems(2) obtain es where es: "get_dict h d = Inr es"
        and dist: "distinct (map snd es)" and low: "\<forall>a \<in> snd ` set es. m \<le> a"
        and rd: "read_entries h es = Inr doms"
        unfolding dict_rel_def by blast
      note db = get_dict_bound [OF es]
      let ?xs = "[1..int n]"
      let ?h1 = "h @ [IntList ?xs]"
      let ?a = "length h"
      let ?es = "AList.update (r, c) ?a es"
      let ?h2 = "?h1[d := Dict ?es]"
      have es1: "get_dict ?h1 d = Inr es" using db by (simp add: get_dict_def nth_append)
      have step: "setup_variables_h n b d ((r, c) # cs) vars h =
          setup_variables_h n b d cs (vars @ [(r, c)]) ?h2"
        using at Inr True es1 by (simp add: alloc_def)
      have pure: "setup_variables B n ((r, c) # cs) (vars, doms) =
          setup_variables B n cs (vars @ [(r, c)], AList.update (r, c) ?xs doms)"
        using Inr True by simp
      have dA: "d \<notin> A" using assms(4) by simp
      have k2: "keeps A h ?h2"
        using keeps_trans [OF keeps_append [of A h "[IntList ?xs]"] keeps_update [OF dA]] .
      from keeps_grid_rel [OF k2 Cons.prems(1)] have g2: "grid_rel A b ?h2 B" .
      note dn = dict_not_entry [OF es rd]
      have ke: "keeps (snd ` set es) h ?h2"
        using keeps_trans [OF keeps_append [of "snd ` set es" h "[IntList ?xs]"] keeps_update [OF dn]] .
      from keeps_read_entries [OF ke subset_refl rd] have rd2: "read_entries ?h2 es = Inr doms" .
      have ga: "get_list ?h2 ?a = Inr ?xs" using db by (simp add: get_list_def)
      from read_entries_update [OF rd2 ga]
      have rd3: "read_entries ?h2 ?es = Inr (AList.update (r, c) ?xs doms)" .
      have fresh: "?a \<notin> snd ` set es" using entries_bound [OF rd] by blast
      from distinct_update_snd [OF dist fresh] have dist3: "distinct (map snd ?es)" .
      have low3: "\<forall>a \<in> snd ` set ?es. m \<le> a"
      proof
        fix a assume "a \<in> snd ` set ?es"
        from update_sndD [OF this] have "a = ?a \<or> a \<in> snd ` set es" .
        then show "m \<le> a"
        proof
          assume "a = ?a"
          with Cons.prems(3) show ?thesis by simp
        next
          assume "a \<in> snd ` set es"
          with low show ?thesis by (rule bspec)
        qed
      qed
      have gd: "get_dict ?h2 d = Inr ?es" using db by (simp add: get_dict_def)
      from gd dist3 low3 rd3 have d2: "dict_rel m d ?h2 (AList.update (r, c) ?xs doms)"
        unfolding dict_rel_def by blast
      have m2: "m \<le> length ?h2" using Cons.prems(3) by simp
      note IH = Cons.IH [OF g2 d2 m2, of "vars @ [(r, c)]"]
      show ?thesis
      proof (cases "setup_variables B n cs (vars @ [(r, c)], AList.update (r, c) ?xs doms)")
        case (Inl e)
        with IH step pure show ?thesis unfolding p by simp
      next
        case res: (Inr res)
        with IH obtain h' where run: "setup_variables_h n b d cs (vars @ [(r, c)]) ?h2 = Inr (fst res, h')"
          and k: "keeps A ?h2 h'" and dr: "dict_rel m d h' (snd res)" by auto
        from keeps_trans [OF k2 k] run dr step pure res show ?thesis unfolding p by simp
      qed
    qed
  qed
qed

lemma prune_initial_h_refines:
  assumes "grid_rel A b h B" "dict_rel m d h doms" "A = {..<m} - {d}"
  shows "case prune_initial B bs cs doms of
           Inl e \<Rightarrow> prune_initial_h b bs d cs h = Inl e
         | Inr doms' \<Rightarrow>
             \<exists>h'. prune_initial_h b bs d cs h = Inr h' \<and> keeps A h h' \<and> dict_rel m d h' doms'"
  using assms(1,2)
proof (induction cs arbitrary: doms h)
  case Nil
  then show ?case by (simp add: keeps_refl)
next
  case (Cons p cs)
  obtain r c where p: "p = (r, c)" by (cases p)
  from Cons.prems(1) obtain rs where rs: "get_rows h b = Inr rs" "read_rows h rs = Inr B"
    unfolding grid_rel_def by blast
  note at = board_at_read [OF rs, of r c]
  show ?case
  proof (cases "board_at B r c")
    case (Inl e)
    with at show ?thesis unfolding p by simp
  next
    case (Inr x)
    show ?thesis
    proof (cases "x = 0")
      case True
      have step: "prune_initial_h b bs d ((r, c) # cs) h = prune_initial_h b bs d cs h"
        using at Inr True by simp
      have pure: "prune_initial B bs ((r, c) # cs) doms = prune_initial B bs cs doms"
        using Inr True by simp
      show ?thesis unfolding p step pure using Cons.IH [OF Cons.prems] .
    next
      case False
      from Cons.prems(2) obtain es where es: "get_dict h d = Inr es"
        and dist: "distinct (map snd es)" and low: "\<forall>a \<in> snd ` set es. m \<le> a"
        and rd: "read_entries h es = Inr doms"
        unfolding dict_rel_def by blast
      note db = get_dict_bound [OF es]
      note R = remove_conflicts_h_refines [OF dist rd, of bs "(r, c)" x]
      show ?thesis
      proof (cases "remove_conflicts bs (r, c) x doms")
        case (Inl e)
        with R at Inr False es show ?thesis unfolding p by simp
      next
        case rm: (Inr doms1)
        with R obtain h1 where run1: "remove_conflicts_h bs (r, c) x es h = Inr h1"
          and len: "length h1 = length h"
          and same: "\<forall>a. a \<notin> snd ` set es \<longrightarrow> h1 ! a = h ! a"
          and rd1: "read_entries h1 es = Inr doms1" by auto
        have step: "prune_initial_h b bs d ((r, c) # cs) h = prune_initial_h b bs d cs h1"
          using at Inr False es run1 by simp
        have pure: "prune_initial B bs ((r, c) # cs) doms = prune_initial B bs cs doms1"
          using Inr False rm by simp
        have k1: "keeps A h h1"
          unfolding keeps_def
        proof (intro conjI ballI impI)
          show "length h \<le> length h1" using len by simp
        next
          fix a assume "a \<in> A" "a < length h"
          then have "a < m" using assms(3) by simp
          with low have "a \<notin> snd ` set es" by auto
          with same show "h1 ! a = h ! a" by blast
        qed
        from keeps_grid_rel [OF k1 Cons.prems(1)] have g1: "grid_rel A b h1 B" .
        from dict_not_entry [OF es rd] same have "h1 ! d = h ! d" by blast
        with db len have gd: "get_dict h1 d = Inr es" by (simp add: get_dict_def)
        from gd dist low rd1 have d1: "dict_rel m d h1 doms1" unfolding dict_rel_def by blast
        note IH = Cons.IH [OF g1 d1]
        show ?thesis
        proof (cases "prune_initial B bs cs doms1")
          case (Inl e)
          with IH step pure show ?thesis unfolding p by simp
        next
          case res: (Inr res)
          with IH obtain h' where run: "prune_initial_h b bs d cs h1 = Inr h'"
            and k: "keeps A h1 h'" and dr: "dict_rel m d h' res" by auto
          from keeps_trans [OF k1 k] run dr step pure res show ?thesis unfolding p by simp
        qed
      qed
    qed
  qed
qed

lemma read_rows_lists:
  "read_rows h rs = Inr B \<Longrightarrow> a \<in> set rs \<Longrightarrow> \<exists>xs. get_list h a = Inr xs"
proof (induction rs arbitrary: B)
  case Nil
  then show ?case by simp
next
  case (Cons a' rs)
  from Cons.prems(1) obtain xs B0 where xs: "get_list h a' = Inr xs"
    and d: "read_rows h rs = Inr B0"
    by (auto split: sum.splits)
  from Cons.prems(2) have "a = a' \<or> a \<in> set rs" by auto
  with xs Cons.IH [OF d] show ?case by blast
qed

lemma copy_rows_reads:
  assumes "read_rows h rs = Inr B"
  shows "\<exists>rs' h'. copy_rows rs h = Inr (rs', h') \<and> keeps UNIV h h' \<and>
           (\<forall>a \<in> set rs'. length h \<le> a) \<and> read_rows h' rs' = Inr B"
  using assms
proof (induction rs arbitrary: h B)
  case Nil
  then show ?case by (simp add: keeps_refl)
next
  case (Cons a rs)
  from Cons.prems obtain xs B0 where xs: "get_list h a = Inr xs"
    and d: "read_rows h rs = Inr B0" and B: "B = xs # B0"
    by (auto split: sum.splits)
  let ?h1 = "h @ [IntList xs]"
  have k1: "keeps UNIV h ?h1" by (rule keeps_append)
  from keeps_read_rows [OF k1 subset_UNIV d] have d1: "read_rows ?h1 rs = Inr B0" .
  from Cons.IH [OF d1] obtain rs' h' where run: "copy_rows rs ?h1 = Inr (rs', h')"
    and k: "keeps UNIV ?h1 h'" and low: "\<forall>a \<in> set rs'. length ?h1 \<le> a"
    and rd: "read_rows h' rs' = Inr B0" by blast
  have run': "copy_rows (a # rs) h = Inr (length h # rs', h')"
    using xs run by (simp add: alloc_def)
  have "get_list ?h1 (length h) = Inr xs" by (simp add: get_list_def)
  from keeps_get_list [OF k UNIV_I this] have ga: "get_list h' (length h) = Inr xs" .
  have rd': "read_rows h' (length h # rs') = Inr B" using ga rd B by simp
  have low': "\<forall>a \<in> set (length h # rs'). length h \<le> a"
  proof
    fix c assume "c \<in> set (length h # rs')"
    then have "c = length h \<or> c \<in> set rs'" by simp
    then show "length h \<le> c"
    proof
      assume "c = length h" then show ?thesis by simp
    next
      assume "c \<in> set rs'"
      with low have "length ?h1 \<le> c" by (rule bspec)
      then show ?thesis by simp
    qed
  qed
  from run' keeps_trans [OF k1 k] low' rd' show ?case by blast
qed

lemma zero_rows_reads:
  "\<exists>rs' h'. zero_rows k n h = (rs', h') \<and> keeps UNIV h h' \<and>
           (\<forall>a \<in> set rs'. length h \<le> a) \<and>
           read_rows h' rs' = Inr (replicate k (replicate n 0))"
proof (induction k arbitrary: h)
  case 0
  then show ?case by (simp add: keeps_refl)
next
  case (Suc k)
  let ?xs = "replicate n (0::int)"
  let ?h1 = "h @ [IntList ?xs]"
  have k1: "keeps UNIV h ?h1" by (rule keeps_append)
  from Suc.IH [of ?h1] obtain rs' h' where run: "zero_rows k n ?h1 = (rs', h')"
    and k: "keeps UNIV ?h1 h'" and low: "\<forall>a \<in> set rs'. length ?h1 \<le> a"
    and rd: "read_rows h' rs' = Inr (replicate k ?xs)" by blast
  have run': "zero_rows (Suc k) n h = (length h # rs', h')"
    using run by (simp add: alloc_def)
  have "get_list ?h1 (length h) = Inr ?xs" by (simp add: get_list_def)
  from keeps_get_list [OF k UNIV_I this] have ga: "get_list h' (length h) = Inr ?xs" .
  have rd': "read_rows h' (length h # rs') = Inr (replicate (Suc k) ?xs)" using ga rd by simp
  have low': "\<forall>a \<in> set (length h # rs'). length h \<le> a"
  proof
    fix c assume "c \<in> set (length h # rs')"
    then have "c = length h \<or> c \<in> set rs'" by simp
    then show "length h \<le> c"
    proof
      assume "c = length h" then show ?thesis by simp
    next
      assume "c \<in> set rs'"
      with low have "length ?h1 \<le> c" by (rule bspec)
      then show ?thesis by simp
    qed
  qed
  from run' keeps_trans [OF k1 k] low' rd' show ?case by blast
qed

lemma build_h_refines:
  assumes rd: "read_rows h2 rs = Inr B"
    and low: "\<forall>a \<in> set rs. Suc n0 \<le> a"
    and d: "get_dict h2 n0 = Inr []"
    and sz: "0 \<le> sz"
    and B: "B = (case initial of None \<Rightarrow> replicate (nat sz) (replicate (nat sz) 0) | Some given \<Rightarrow> given)"
  shows "case SudokuCSP_init sz initial of
           Inl e \<Rightarrow> build_h (nat sz) (isqrt (nat sz)) n0 (length h2) (h2 @ [Rows rs]) = Inl e
         | Inr res \<Rightarrow>
             \<exists>eng h'.
               build_h (nat sz) (isqrt (nat sz)) n0 (length h2) (h2 @ [Rows rs])
                 = Inr (eng, snd res, h') \<and>
               read_engine h' eng = Inr (fst res) \<and> keeps ({..<length h2} - {n0}) h2 h' \<and>
               owned n0 eng h'"
proof -
  let ?n = "nat sz" and ?bs = "isqrt (nat sz)"
  let ?b = "length h2" and ?h3 = "h2 @ [Rows rs]"
  let ?m = "Suc (length h2)"
  let ?A = "{..<?m} - {n0}"
  have Bs: "(case initial of None \<Rightarrow> replicate ?n (replicate ?n 0) | Some given \<Rightarrow> map (\<lambda>row. row) given) = B"
    unfolding B by (cases initial) simp_all
  have pure: "SudokuCSP_init sz initial =
      (case setup_variables B ?n (cells ?n) ([], []) of
         Inl e \<Rightarrow> Inl e
       | Inr (vars, doms) \<Rightarrow>
           (case prune_initial B ?bs (cells ?n) doms of
              Inl e \<Rightarrow> Inl e
            | Inr doms' \<Rightarrow>
                Inr (\<lparr>size' = ?n, box_size = ?bs, variables = vars,
                      initial_domains = doms', initial_board = B\<rparr>, reset)))"
    unfolding SudokuCSP_init_def Let_def Bs using sz by simp
  note db = get_dict_bound [OF d]
  have k3: "keeps UNIV h2 ?h3" by (rule keeps_append)
  have gr: "get_rows ?h3 ?b = Inr rs" by (simp add: get_rows_def)
  have sub: "set rs \<subseteq> ?A"
  proof
    fix a assume a: "a \<in> set rs"
    from read_rows_lists [OF rd a] obtain xs where "get_list h2 a = Inr xs" ..
    from get_list_bound [OF this] have "a < length h2" by simp
    moreover from low a have "Suc n0 \<le> a" by (rule bspec)
    ultimately show "a \<in> ?A" by simp
  qed
  from keeps_read_rows [OF k3 subset_UNIV rd] have rd3: "read_rows ?h3 rs = Inr B" .
  have bA: "?b \<in> ?A" using db by simp
  from gr bA sub rd3 have g3: "grid_rel ?A ?b ?h3 B" unfolding grid_rel_def by blast
  from keeps_get_dict [OF k3 UNIV_I d] have "get_dict ?h3 n0 = Inr []" .
  then have d3: "dict_rel ?m n0 ?h3 []" unfolding dict_rel_def by simp
  have m3: "?m \<le> length ?h3" by simp
  note S = setup_variables_h_refines [OF g3 d3 m3 refl, of ?n "cells ?n" "[]"]
  show ?thesis
  proof (cases "setup_variables B ?n (cells ?n) ([], [])")
    case (Inl e)
    with S show ?thesis unfolding pure build_h_def by simp
  next
    case (Inr res)
    obtain vars doms where res: "res = (vars, doms)" by (cases res)
    from S Inr res obtain h4 where
      run4: "setup_variables_h ?n ?b n0 (cells ?n) [] ?h3 = Inr (vars, h4)"
      and k4: "keeps ?A ?h3 h4" and d4: "dict_rel ?m n0 h4 doms" by auto
    from keeps_grid_rel [OF k4 g3] have g4: "grid_rel ?A ?b h4 B" .
    note P = prune_initial_h_refines [OF g4 d4 refl, of ?bs "cells ?n"]
    show ?thesis
    proof (cases "prune_initial B ?bs (cells ?n) doms")
      case (Inl e)
      with P Inr res run4 show ?thesis unfolding pure build_h_def by simp
    next
      case pr: (Inr doms')
      with P obtain h5 where run5: "prune_initial_h ?b ?bs n0 (cells ?n) h4 = Inr h5"
        and k5: "keeps ?A h4 h5" and d5: "dict_rel ?m n0 h5 doms'" by auto
      from keeps_grid_rel [OF k5 g4] have g5: "grid_rel ?A ?b h5 B" .
      let ?eng = "\<lparr>size_h = ?n, box_size_h = ?bs, variables_h = vars,
                   initial_domains_h = n0, initial_board_h = ?b\<rparr>"
      let ?csp = "\<lparr>size' = ?n, box_size = ?bs, variables = vars,
                   initial_domains = doms', initial_board = B\<rparr>"
      from d5 obtain es where es: "get_dict h5 n0 = Inr es"
        and elow: "\<forall>a \<in> snd ` set es. ?m \<le> a" and erd: "read_entries h5 es = Inr doms'"
        unfolding dict_rel_def by blast
      from g5 obtain rs5 where rs5: "get_rows h5 ?b = Inr rs5" "set rs5 \<subseteq> ?A"
        "read_rows h5 rs5 = Inr B" unfolding grid_rel_def by blast
      from keeps_get_rows [OF keeps_trans [OF k4 k5] bA gr] rs5(1) have rseq: "rs5 = rs" by simp
      have re: "read_engine h5 ?eng = Inr ?csp"
        using es erd rs5 by (simp add: read_engine_def read_domains_def read_board_def)
      have kk: "keeps ?A h2 h5"
        using keeps_trans [OF keeps_mono [OF k3 subset_UNIV] keeps_trans [OF k4 k5]] .
      have kk': "keeps ({..<length h2} - {n0}) h2 h5"
        by (rule keeps_mono [OF kk]) auto
      have e0: "\<forall>a \<in> snd ` set es. n0 \<le> a"
      proof
        fix a assume "a \<in> snd ` set es"
        with elow have "?m \<le> a" by (rule bspec)
        with db show "n0 \<le> a" by simp
      qed
      have r0: "\<forall>a \<in> set rs. n0 \<le> a"
      proof
        fix a assume "a \<in> set rs"
        with low have "Suc n0 \<le> a" by (rule bspec)
        then show "n0 \<le> a" by simp
      qed
      have ow: "owned n0 ?eng h5"
        unfolding owned_def using es e0 rs5(1) rseq r0 db by auto
      have p: "SudokuCSP_init sz initial = Inr (?csp, reset)"
        unfolding pure using Inr res pr by simp
      have b: "build_h ?n ?bs n0 ?b ?h3 = Inr (?eng, reset, h5)"
        unfolding build_h_def using run4 run5 by simp
      show ?thesis unfolding p b using re kk' ow by simp
    qed
  qed
qed

lemma init_h_refines:
  assumes "read_board h board = Inr B"
  shows "case SudokuCSP_init sz (Some B) of
           Inl e \<Rightarrow> init_h sz (Some board) h = Inl e
         | Inr res \<Rightarrow>
             \<exists>eng h'.
               init_h sz (Some board) h = Inr (eng, snd res, h') \<and>
               read_engine h' eng = Inr (fst res) \<and> keeps {..<length h} h h' \<and>
               owned (length h) eng h'"
proof (cases "sz < 0")
  case True
  then show ?thesis by (simp add: SudokuCSP_init_def init_h_def)
next
  case False
  then have sz: "0 \<le> sz" by simp
  let ?d = "length h" and ?h1 = "h @ [Dict []]"
  from assms obtain rows where rows: "get_rows h board = Inr rows" "read_rows h rows = Inr B"
    by (auto simp: read_board_def split: sum.splits)
  have k1: "keeps UNIV h ?h1" by (rule keeps_append)
  from keeps_get_rows [OF k1 UNIV_I rows(1)] have rows1: "get_rows ?h1 board = Inr rows" .
  from keeps_read_rows [OF k1 subset_UNIV rows(2)] have rd1: "read_rows ?h1 rows = Inr B" .
  from copy_rows_reads [OF rd1] obtain rs h2 where cp: "copy_rows rows ?h1 = Inr (rs, h2)"
    and k2: "keeps UNIV ?h1 h2" and low: "\<forall>a \<in> set rs. length ?h1 \<le> a"
    and rd2: "read_rows h2 rs = Inr B" by blast
  have low': "\<forall>a \<in> set rs. Suc ?d \<le> a" using low by simp
  have "get_dict ?h1 ?d = Inr []" by (simp add: get_dict_def)
  from keeps_get_dict [OF k2 UNIV_I this] have d2: "get_dict h2 ?d = Inr []" .
  have run: "init_h sz (Some board) h =
      build_h (nat sz) (isqrt (nat sz)) ?d (length h2) (h2 @ [Rows rs])"
    using False rows1 cp by (simp add: init_h_def alloc_def Let_def)
  note R = build_h_refines [OF rd2 low' d2 sz, of "Some B"]
  have k02: "keeps {..<length h} h h2"
    by (rule keeps_mono [OF keeps_trans [OF k1 k2]]) simp
  show ?thesis
  proof (cases "SudokuCSP_init sz (Some B)")
    case (Inl e)
    with R run show ?thesis by simp
  next
    case (Inr res)
    with R obtain eng h' where
      b: "build_h (nat sz) (isqrt (nat sz)) ?d (length h2) (h2 @ [Rows rs]) = Inr (eng, snd res, h')"
      and re: "read_engine h' eng = Inr (fst res)"
      and k: "keeps ({..<length h2} - {?d}) h2 h'" and ow: "owned ?d eng h'" by auto
    from k02 have "length h \<le> length h2" by (simp add: keeps_def)
    then have "{..<length h} \<subseteq> {..<length h2} - {?d}" by auto
    from keeps_trans [OF k02 keeps_mono [OF k this]] have "keeps {..<length h} h h'" .
    with b re ow run Inr show ?thesis by simp
  qed
qed

lemma init_h_default_refines:
  "case SudokuCSP_init sz None of
     Inl e \<Rightarrow> init_h sz None h = Inl e
   | Inr res \<Rightarrow>
       \<exists>eng h'.
         init_h sz None h = Inr (eng, snd res, h') \<and>
         read_engine h' eng = Inr (fst res) \<and> keeps {..<length h} h h' \<and>
         owned (length h) eng h'"
proof (cases "sz < 0")
  case True
  then show ?thesis by (simp add: SudokuCSP_init_def init_h_def)
next
  case False
  then have sz: "0 \<le> sz" by simp
  let ?d = "length h" and ?h1 = "h @ [Dict []]" and ?n = "nat sz"
  have k1: "keeps UNIV h ?h1" by (rule keeps_append)
  from zero_rows_reads [of ?n ?n ?h1] obtain rs h2 where cp: "zero_rows ?n ?n ?h1 = (rs, h2)"
    and k2: "keeps UNIV ?h1 h2" and low: "\<forall>a \<in> set rs. length ?h1 \<le> a"
    and rd2: "read_rows h2 rs = Inr (replicate ?n (replicate ?n 0))" by blast
  have low': "\<forall>a \<in> set rs. Suc ?d \<le> a" using low by simp
  have "get_dict ?h1 ?d = Inr []" by (simp add: get_dict_def)
  from keeps_get_dict [OF k2 UNIV_I this] have d2: "get_dict h2 ?d = Inr []" .
  have run: "init_h sz None h =
      build_h (nat sz) (isqrt (nat sz)) ?d (length h2) (h2 @ [Rows rs])"
    using False cp by (simp add: init_h_def alloc_def Let_def)
  note R = build_h_refines [OF rd2 low' d2 sz, of None]
  have k02: "keeps {..<length h} h h2"
    by (rule keeps_mono [OF keeps_trans [OF k1 k2]]) simp
  show ?thesis
  proof (cases "SudokuCSP_init sz None")
    case (Inl e)
    with R run show ?thesis by simp
  next
    case (Inr res)
    with R obtain eng h' where
      b: "build_h (nat sz) (isqrt (nat sz)) ?d (length h2) (h2 @ [Rows rs]) = Inr (eng, snd res, h')"
      and re: "read_engine h' eng = Inr (fst res)"
      and k: "keeps ({..<length h2} - {?d}) h2 h'" and ow: "owned ?d eng h'" by auto
    from k02 have "length h \<le> length h2" by (simp add: keeps_def)
    then have "{..<length h} \<subseteq> {..<length h2} - {?d}" by auto
    from keeps_trans [OF k02 keeps_mono [OF k this]] have "keeps {..<length h} h h'" .
    with b re ow run Inr show ?thesis by simp
  qed
qed

lemma owned_independent:
  assumes "owned n0 eng h'" "read_engine h' eng = Inr csp" "keeps {n0..} h' h''"
  shows "read_engine h'' eng = Inr csp"
proof -
  let ?d = "initial_domains_h eng" and ?b = "initial_board_h eng"
  from assms(1) obtain es rs where n0: "n0 \<le> ?d" "n0 \<le> ?b"
    and es: "get_dict h' ?d = Inr es" "\<forall>a \<in> snd ` set es. n0 \<le> a"
    and rs: "get_rows h' ?b = Inr rs" "\<forall>a \<in> set rs. n0 \<le> a"
    unfolding owned_def by blast
  from assms(2) es(1) rs(1) obtain doms B where doms: "read_entries h' es = Inr doms"
    and B: "read_rows h' rs = Inr B"
    and csp: "csp = \<lparr>size' = size_h eng, box_size = box_size_h eng, variables = variables_h eng,
                     initial_domains = doms, initial_board = B\<rparr>"
    by (auto simp: read_engine_def read_domains_def read_board_def split: sum.splits)
  from n0 have d: "?d \<in> {n0..}" and b: "?b \<in> {n0..}" by simp_all
  from es(2) have se: "snd ` set es \<subseteq> {n0..}" by auto
  from rs(2) have sr: "set rs \<subseteq> {n0..}" by auto
  from keeps_get_dict [OF assms(3) d es(1)] keeps_read_entries [OF assms(3) se doms]
    keeps_get_rows [OF assms(3) b rs(1)] keeps_read_rows [OF assms(3) sr B]
  show ?thesis unfolding csp by (simp add: read_engine_def read_domains_def read_board_def)
qed

lemma keeps_read_board:
  assumes "keeps {..<length h} h h'" "read_board h board = Inr B"
  shows "read_board h' board = Inr B"
proof -
  from assms(2) obtain rows where rows: "get_rows h board = Inr rows" "read_rows h rows = Inr B"
    by (auto simp: read_board_def split: sum.splits)
  from get_rows_bound [OF rows(1)] have b: "board \<in> {..<length h}" by simp
  have sub: "set rows \<subseteq> {..<length h}"
  proof
    fix a assume "a \<in> set rows"
    from read_rows_lists [OF rows(2) this] obtain xs where "get_list h a = Inr xs" ..
    from get_list_bound [OF this] show "a \<in> {..<length h}" by simp
  qed
  from keeps_get_rows [OF assms(1) b rows(1)] keeps_read_rows [OF assms(1) sub rows(2)]
  show ?thesis by (simp add: read_board_def)
qed

lemma is_valid_puzzle_h_refines:
  assumes "read_board h board = Inr B"
  shows "case is_valid_puzzle B of
           Inl e \<Rightarrow> is_valid_puzzle_h board h = Inl e
         | Inr answer \<Rightarrow>
             \<exists>h'. is_valid_puzzle_h board h = Inr (answer, h') \<and> keeps {..<length h} h h'"
proof -
  from assms obtain rows where rows: "get_rows h board = Inr rows" "read_rows h rows = Inr B"
    by (auto simp: read_board_def split: sum.splits)
  from read_rows_length [OF rows(2)] have len: "length rows = length B" by simp
  note R = init_h_refines [OF assms, of "int (length B)"]
  show ?thesis
  proof (cases "SudokuCSP_init (int (length B)) (Some B)")
    case (Inl e)
    with R rows(1) len show ?thesis by (simp add: is_valid_puzzle_def is_valid_puzzle_h_def)
  next
    case (Inr res)
    obtain csp st where res: "res = (csp, st)" by (cases res)
    from R Inr res obtain eng h' where
      run: "init_h (int (length B)) (Some board) h = Inr (eng, st, h')"
      and re: "read_engine h' eng = Inr csp" and k: "keeps {..<length h} h h'" by auto
    let ?r = "backtrack_generator csp st"
    have pure: "is_valid_puzzle B =
        (case consume (events ?r) 0 of
           Inl answer \<Rightarrow> Inr answer
         | Inr solution_count \<Rightarrow>
             (case err ?r of Some e \<Rightarrow> Inl e | None \<Rightarrow> Inr (solution_count = 1)))"
      using Inr res by (simp add: is_valid_puzzle_def Let_def)
    have heap: "is_valid_puzzle_h board h =
        (case consume (events ?r) 0 of
           Inl answer \<Rightarrow> Inr (answer, h')
         | Inr solution_count \<Rightarrow>
             (case err ?r of Some e \<Rightarrow> Inl e | None \<Rightarrow> Inr (solution_count = 1, h')))"
      using rows(1) len run re by (simp add: is_valid_puzzle_h_def Let_def)
    show ?thesis unfolding pure heap using k
      by (cases "consume (events ?r) 0"; cases "err ?r") simp_all
  qed
qed

section \<open>Construction with a size that is not a perfect square\<close>

text \<open>
  C2, as the specification states it: a size with no integer square root is rejected with
  a configuration error. The constructor has no such test. For size 2 and the default
  board it returns an engine whose box size is 1.
\<close>

theorem init_accepts_non_square_size:
  "(\<forall>k::int. k * k \<noteq> 2) \<and>
   (case SudokuCSP_init 2 None of
      Inl e \<Rightarrow> False
    | Inr (csp, st) \<Rightarrow> size' csp = 2 \<and> box_size csp = 1)"
proof -
  have sq: "k * k \<noteq> 2" for k :: int
  proof
    assume h: "k * k = 2"
    have "\<bar>k\<bar> * \<bar>k\<bar> = 2" using h by (simp add: abs_mult_self_eq)
    moreover have "\<bar>k\<bar> \<le> 1 \<or> \<bar>k\<bar> \<ge> 2" by arith
    ultimately show False
    proof (elim disjE)
      assume "\<bar>k\<bar> \<le> 1"
      then have "\<bar>k\<bar> * \<bar>k\<bar> \<le> 1 * 1" by (intro mult_mono) auto
      with \<open>\<bar>k\<bar> * \<bar>k\<bar> = 2\<close> show False by simp
    next
      assume "\<bar>k\<bar> \<ge> 2"
      then have "2 * 2 \<le> \<bar>k\<bar> * \<bar>k\<bar>" by (intro mult_mono) auto
      with \<open>\<bar>k\<bar> * \<bar>k\<bar> = 2\<close> show False by simp
    qed
  qed
  have run: "(case SudokuCSP_init 2 None of
      Inl e \<Rightarrow> False
    | Inr (csp, st) \<Rightarrow> size' csp = 2 \<and> box_size csp = 1)"
    by code_simp
  from sq run show ?thesis by blast
qed

text \<open>
  C2, as the code has it: for every size that is not negative, with or without an integer
  square root, and every board that has at least \<open>size\<close> rows of at least \<open>size\<close>
  entries, construction succeeds, and the box size is the integer part of the square
  root of the size. No configuration error is raised.
\<close>

theorem init_box_size_floor_sqrt:
  assumes "0 \<le> sz" and "covers b (nat sz)"
  shows "\<exists>csp st. SudokuCSP_init sz (Some b) = Inr (csp, st) \<and> size' csp = nat sz \<and>
           box_size csp * box_size csp \<le> nat sz \<and>
           nat sz < (box_size csp + 1) * (box_size csp + 1)"
proof -
  have "covers (given_board (nat sz) (Some b)) (nat sz)" using assms(2) by (simp add: given_board_def)
  from init_closed [OF assms(1) this] isqrt_bounds [of "nat sz"] show ?thesis by simp
qed

theorem init_box_size_floor_sqrt_witness:
  "\<exists>csp st. SudokuCSP_init 8 (Some (replicate 8 (replicate 8 0))) = Inr (csp, st) \<and>
      size' csp = nat 8 \<and> box_size csp * box_size csp \<le> nat 8 \<and>
      nat 8 < (box_size csp + 1) * (box_size csp + 1)"
  using init_box_size_floor_sqrt [of 8 "replicate 8 (replicate 8 0)"] covers_default [of 8]
  by simp

section \<open>The consistency check and the cell under test\<close>

text \<open>
  C6, as the specification states it: \<open>is_consistent\<close> returns false if and only if some
  variable other than \<open>var\<close> that shares a row, column or box with it is assigned the
  value. The row scan of line 95 visits \<open>var\<close>'s own column too: on the engine of
  \<open>SudokuCSP(4)\<close>, with \<open>{(0, 0): 1}\<close> as the assignment, the call for \<open>(0, 0)\<close> and 1
  returns False although no other cell is assigned at all.
\<close>

theorem is_consistent_sees_own_cell:
  "(case SudokuCSP_init 4 None of
      Inl e \<Rightarrow> False
    | Inr (csp, st) \<Rightarrow> is_consistent csp (0, 0) 1 [((0, 0), 1)] = Inr False) \<and>
   \<not> (\<exists>k. k \<noteq> (0, 0) \<and> map_of [((0::nat, 0::nat), 1::int)] k = Some 1)"
proof -
  have "(case SudokuCSP_init 4 None of
      Inl e \<Rightarrow> False
    | Inr (csp, st) \<Rightarrow> is_consistent csp (0, 0) 1 [((0, 0), 1)] = Inr False)"
    by code_simp
  moreover have "\<not> (\<exists>k. k \<noteq> (0, 0) \<and> map_of [((0::nat, 0::nat), 1::int)] k = Some 1)"
    by (auto split: if_splits)
  ultimately show ?thesis by blast
qed

text \<open>
  C6, as the code has it: on an engine with a positive box size and an assignment whose
  keys are cells of the grid, \<open>is_consistent\<close> raises nothing and returns false if and only
  if some cell of the assignment in \<open>var\<close>'s row, column or box, \<open>var\<close> itself included,
  is assigned the value. When \<open>var\<close> is not assigned the value (the search calls it only
  for an unassigned \<open>var\<close>), that cell is another variable, as the specification says.
\<close>

theorem is_consistent_iff:
  assumes "0 < box_size csp"
    and "\<forall>k \<in> fst ` set a. fst k < size' csp \<and> snd k < size' csp"
  shows "(is_consistent csp var v a = Inr False \<or> is_consistent csp var v a = Inr True) \<and>
         ((is_consistent csp var v a = Inr False) =
            (\<exists>k. map_of a k = Some v \<and> shares_unit (box_size csp) k var)) \<and>
         (map_of a var \<noteq> Some v \<longrightarrow>
            (is_consistent csp var v a = Inr False) =
              (\<exists>k. k \<noteq> var \<and> map_of a k = Some v \<and> shares_unit (box_size csp) k var))"
proof -
  have "map_of a var \<noteq> Some v \<Longrightarrow>
     (\<exists>k. map_of a k = Some v \<and> shares_unit (box_size csp) k var) =
     (\<exists>k. k \<noteq> var \<and> map_of a k = Some v \<and> shares_unit (box_size csp) k var)"
    by auto
  then show ?thesis
    unfolding is_consistent_closed [OF assms] by auto
qed

theorem is_consistent_iff_witness:
  "is_consistent \<lparr>size' = 4, box_size = 2, variables = [(0, 0), (0, 1)],
                  initial_domains = [], initial_board = []\<rparr> (0, 1) 3 [((0, 0), 3)] = Inr False \<and>
   (\<exists>k. k \<noteq> (0, 1) \<and> map_of [((0::nat, 0::nat), 3::int)] k = Some 3 \<and> shares_unit 2 k (0, 1))"
proof -
  let ?E = "\<lparr>size' = 4, box_size = 2, variables = [(0, 0), (0, 1)],
             initial_domains = [], initial_board = []\<rparr>"
  have ex: "\<exists>k. k \<noteq> (0, 1) \<and> map_of [((0::nat, 0::nat), 3::int)] k = Some 3 \<and> shares_unit 2 k (0, 1)"
    by (rule exI [of _ "(0, 0)"]) (simp add: shares_unit_def)
  have "0 < box_size ?E" by simp
  moreover have "\<forall>k \<in> fst ` set [((0::nat, 0::nat), 3::int)]. fst k < size' ?E \<and> snd k < size' ?E"
    by simp
  ultimately have "is_consistent ?E (0, 1) 3 [((0, 0), 3)] = Inr False"
    using is_consistent_iff [of ?E "[((0, 0), 3)]" "(0, 1)" 3] ex by simp
  with ex show ?thesis by blast
qed

section \<open>Soundness of forward checking\<close>

text \<open>
  C4: when \<open>forward_check\<close> reports failure, some variable other than \<open>var\<close> in \<open>var\<close>'s
  row, column or box has a domain that holds nothing but the value, so that removing the
  value empties it. When it reports success, the new map gives \<open>var\<close> exactly
  \<open>[value]\<close>, and the new domain of every other variable in \<open>var\<close>'s row, column or box
  is there and does not contain the value. The domains are duplicate-free lists, the
  ordered sets of the data model. With a positive box size and a domain for every
  variable the call raises nothing.
\<close>

theorem forward_check_sound:
  assumes "\<forall>(k, d) \<in> set doms. distinct d"
  shows "(case forward_check csp var v doms of
            Inl e \<Rightarrow> True
          | Inr (None, rm) \<Rightarrow>
              \<exists>k \<in> set (variables csp). k \<noteq> var \<and> shares_unit (box_size csp) k var \<and>
                (\<exists>d. map_of doms k = Some d \<and> set d \<subseteq> {v})
          | Inr (Some nd, rm) \<Rightarrow>
              map_of nd var = Some [v] \<and>
              (\<forall>k \<in> set (variables csp). k \<noteq> var \<and> shares_unit (box_size csp) k var \<longrightarrow>
                 (\<exists>d. map_of nd k = Some d \<and> v \<notin> set d))) \<and>
         (0 < box_size csp \<and> set (variables csp) \<subseteq> fst ` set doms \<longrightarrow>
            (\<exists>res. forward_check csp var v doms = Inr res))"
proof -
  have "\<exists>d. map_of nd k = Some d \<and> v \<notin> set d"
    if "forward_check csp var v doms = Inr (Some nd, rm)" "k \<in> set (variables csp)"
       "k \<noteq> var" "shares_unit (box_size csp) k var" for nd rm k
    using forward_check_ok(4) [OF that(1) assms that(2,3,4)] by blast
  then show ?thesis
    using forward_check_fail [of csp var v doms] forward_check_ok(3) [OF _ assms, of csp var v]
      forward_check_Inr [of csp doms var v]
    by (auto split: sum.splits option.splits)
qed

theorem forward_check_sound_witness:
  "\<exists>nd rm. forward_check \<lparr>size' = 4, box_size = 2, variables = [(0, 0), (0, 1), (3, 3)],
                            initial_domains = [], initial_board = []\<rparr> (0, 0) 1
              [((0, 0), [1, 2]), ((0, 1), [1, 2]), ((3, 3), [1, 3])] = Inr (Some nd, rm) \<and>
           map_of nd (0, 0) = Some [1] \<and> (\<exists>d. map_of nd (0, 1) = Some d \<and> 1 \<notin> set d)"
proof -
  let ?E = "\<lparr>size' = 4, box_size = 2, variables = [(0, 0), (0, 1), (3, 3)],
             initial_domains = [], initial_board = []\<rparr>"
  let ?D = "[((0::nat, 0::nat), [1, 2::int]), ((0, 1), [1, 2]), ((3, 3), [1, 3])]"
  have run: "forward_check ?E (0, 0) 1 ?D =
      Inr (Some [((0, 0), [1]), ((0, 1), [2]), ((3, 3), [1, 3])],
           [((0, 0), []), ((0, 1), [1]), ((3, 3), [])])"
    by (simp add: forward_check_def same_unit_def)
  have "\<forall>(k, d) \<in> set ?D. distinct d" by simp
  from forward_check_sound [OF this, of ?E "(0, 0)" 1]
  show ?thesis unfolding run by (simp add: shares_unit_def)
qed

section \<open>Minimum remaining values with the degree tie-break\<close>

text \<open>
  C5: on an engine with a positive box size and no repeated variable, for every domain
  map that has a domain for each unassigned variable and every assignment that leaves a
  variable unassigned, \<open>select_unassigned_var\<close> returns an unassigned variable whose
  domain is no longer than the domain of any unassigned variable, and whose degree is
  no smaller than the degree of any unassigned variable with a domain of the same
  length.
\<close>

theorem select_unassigned_var_mrv:
  assumes "0 < box_size csp" and "distinct (variables csp)" and "unassigned csp a \<noteq> []"
    and "set (unassigned csp a) \<subseteq> fst ` set doms"
  shows "\<exists>var d. select_unassigned_var csp doms a = Inr var \<and> var \<in> set (variables csp) \<and>
           map_of a var = None \<and> map_of doms var = Some d \<and>
           (\<forall>u \<in> set (variables csp). map_of a u = None \<longrightarrow>
              (\<exists>du. map_of doms u = Some du \<and> length d \<le> length du \<and>
                    (length du = length d \<longrightarrow> degree csp a u \<le> degree csp a var)))"
  using assms by (rule select_unassigned_var_least)

theorem select_unassigned_var_mrv_witness:
  "\<exists>var d. select_unassigned_var
              \<lparr>size' = 4, box_size = 2, variables = [(0, 0), (0, 1), (3, 3)],
                initial_domains = [], initial_board = []\<rparr>
              [((0, 0), [1]), ((0, 1), [2, 3, 4]), ((3, 3), [1, 3])] [((0, 0), 1)] = Inr var \<and>
           map_of [((0::nat, 0::nat), 1::int)] var = None \<and>
           map_of [((0, 0), [1]), ((0, 1), [2, 3, 4]), ((3, 3), [1, 3::int])] var = Some d \<and>
           length d \<le> 2"
proof -
  let ?E = "\<lparr>size' = 4, box_size = 2, variables = [(0, 0), (0, 1), (3, 3)],
             initial_domains = [], initial_board = []\<rparr>"
  let ?D = "[((0::nat, 0::nat), [1::int]), ((0, 1), [2, 3, 4]), ((3, 3), [1, 3])]"
  let ?A = "[((0::nat, 0::nat), 1::int)]"
  have h: "0 < box_size ?E" "distinct (variables ?E)" "unassigned ?E ?A \<noteq> []"
    "set (unassigned ?E ?A) \<subseteq> fst ` set ?D"
    by (simp_all add: unassigned_def)
  from select_unassigned_var_mrv [OF h] obtain var d where
    sel: "select_unassigned_var ?E ?D ?A = Inr var" "map_of ?A var = None" "map_of ?D var = Some d"
    and least: "\<forall>u \<in> set (variables ?E). map_of ?A u = None \<longrightarrow>
              (\<exists>du. map_of ?D u = Some du \<and> length d \<le> length du \<and>
                    (length du = length d \<longrightarrow> degree ?E ?A u \<le> degree ?E ?A var))"
    by blast
  from least have "\<exists>du. map_of ?D (3, 3) = Some du \<and> length d \<le> length du" by simp
  then have "length d \<le> 2" by simp
  with sel show ?thesis by blast
qed

section \<open>The counters after a full drain\<close>

text \<open>
  C1, as the specification states it: after a full drain the node count is at least the
  backtrack count. Each call counts one node, and each value that passes the
  consistency check counts one backtrack, whether forward checking fails (line 266) or
  the recursive call returns (line 279). On the board below, which has no clash among
  its filled cells, the drain ends with 3 nodes and 4 backtracks.
\<close>

theorem backtracks_exceed_nodes:
  "(case SudokuCSP_init 4 (Some [[0, 0, 0, 3], [4, 0, 0, 0], [0, 0, 4, 0], [0, 0, 0, 0]]) of
      Inl e \<Rightarrow> False
    | Inr (csp, st) \<Rightarrow>
        err (backtrack_generator csp st) = None \<and>
        nodes (final (backtrack_generator csp st)) = 3 \<and>
        backtracks (final (backtrack_generator csp st)) = 4 \<and>
        \<not> backtracks (final (backtrack_generator csp st))
            \<le> nodes (final (backtrack_generator csp st)))"
  by code_simp

text \<open>
  C1, as the code has it: for every size and board on which construction succeeds, the
  full drain of \<open>backtrack_generator\<close> with the default arguments ends without an
  exception, the node count is at least the solution count, and the node count plus the
  number of forward-checking failures is the backtrack count plus one. So the node count
  is at least the backtrack count exactly when forward checking failed at most once.
\<close>

theorem counters_after_drain:
  assumes "SudokuCSP_init sz initial = Inr (csp, st)"
  shows "err (backtrack_generator csp st) = None \<and>
         solutions (final (backtrack_generator csp st)) \<le> nodes (final (backtrack_generator csp st)) \<and>
         nodes (final (backtrack_generator csp st))
           + count_events is_fc_fail (events (backtrack_generator csp st))
         = backtracks (final (backtrack_generator csp st)) + 1"
proof -
  have e: "err (backtrack_generator csp st) = None" by (rule built_no_error [OF assms])
  have st: "st = reset" by (rule built(1) [OF assms])
  have "tally 1 st (backtrack_generator csp st)"
    unfolding built_generator [OF assms] by (rule tally_backtrack_from)
  with e show ?thesis unfolding tally_def st reset_def by simp
qed

theorem counters_after_drain_witness:
  "SudokuCSP_init 1 (Some [[0]]) =
     Inr (\<lparr>size' = 1, box_size = 1, variables = [(0, 0)], initial_domains = [((0, 0), [1])],
           initial_board = [[0]]\<rparr>, reset) \<and>
   solutions (final (backtrack_generator
     \<lparr>size' = 1, box_size = 1, variables = [(0, 0)], initial_domains = [((0, 0), [1])],
      initial_board = [[0]]\<rparr> reset))
   \<le> nodes (final (backtrack_generator
     \<lparr>size' = 1, box_size = 1, variables = [(0, 0)], initial_domains = [((0, 0), [1])],
      initial_board = [[0]]\<rparr> reset))"
proof -
  have h: "SudokuCSP_init 1 (Some [[0]]) =
     Inr (\<lparr>size' = 1, box_size = 1, variables = [(0, 0)], initial_domains = [((0, 0), [1])],
           initial_board = [[0]]\<rparr>, reset)"
    by code_simp
  from counters_after_drain [OF h] h show ?thesis by blast
qed

section \<open>Termination of the search\<close>

text \<open>
  C9: \<open>backtrack_from\<close> is defined by well-founded recursion on the number of unassigned
  variables, which every recursive call lowers, since it is made with one more variable
  assigned. For every size and board on which construction succeeds, the drain with the
  default arguments ends without an exception and yields at most
  \<open>event_bound size (number of variables)\<close> events.
\<close>

theorem drain_is_finite:
  assumes "SudokuCSP_init sz initial = Inr (csp, st)"
  shows "err (backtrack_generator csp st) = None \<and>
         length (events (backtrack_generator csp st))
           \<le> event_bound (size' csp) (length (variables csp))"
proof (cases "variables csp = []")
  case True
  then have "backtrack_generator csp st =
     \<lparr>events = [Solution []],
      final = st\<lparr>nodes := nodes st + 1, solutions := solutions st + 1\<rparr>, err = None\<rparr>"
    unfolding built_generator [OF assms] by (simp add: backtrack_from_leaf)
  with True show ?thesis by simp
next
  case False
  then obtain k where "k \<in> set (variables csp)" by (cases "variables csp") auto
  with built_variables(2) [OF assms] have pos: "0 < size' csp" by fastforce
  have un: "unassigned csp [] = variables csp" by (simp add: unassigned_def)
  from length_events_bound [OF pos built_ready [OF assms False] built_domain_lengths [OF assms], of st]
    built_no_error [OF assms, of st]
  show ?thesis unfolding built_generator [OF assms] un by simp
qed

theorem drain_is_finite_witness:
  "SudokuCSP_init 4 (Some [[0, 0, 3, 4], [3, 4, 1, 2], [0, 0, 4, 3], [4, 3, 2, 1]]) =
     Inr (\<lparr>size' = 4, box_size = 2, variables = [(0, 0), (0, 1), (2, 0), (2, 1)],
           initial_domains = [((0, 0), [1, 2]), ((0, 1), [1, 2]), ((2, 0), [1, 2]),
                              ((2, 1), [1, 2])],
           initial_board = [[0, 0, 3, 4], [3, 4, 1, 2], [0, 0, 4, 3], [4, 3, 2, 1]]\<rparr>, reset) \<and>
   err (backtrack_generator
     \<lparr>size' = 4, box_size = 2, variables = [(0, 0), (0, 1), (2, 0), (2, 1)],
      initial_domains = [((0, 0), [1, 2]), ((0, 1), [1, 2]), ((2, 0), [1, 2]),
                         ((2, 1), [1, 2])],
      initial_board = [[0, 0, 3, 4], [3, 4, 1, 2], [0, 0, 4, 3], [4, 3, 2, 1]]\<rparr> reset) = None \<and>
   length (events (backtrack_generator
     \<lparr>size' = 4, box_size = 2, variables = [(0, 0), (0, 1), (2, 0), (2, 1)],
      initial_domains = [((0, 0), [1, 2]), ((0, 1), [1, 2]), ((2, 0), [1, 2]),
                         ((2, 1), [1, 2])],
      initial_board = [[0, 0, 3, 4], [3, 4, 1, 2], [0, 0, 4, 3], [4, 3, 2, 1]]\<rparr> reset)) = 40 \<and>
   final (backtrack_generator
     \<lparr>size' = 4, box_size = 2, variables = [(0, 0), (0, 1), (2, 0), (2, 1)],
      initial_domains = [((0, 0), [1, 2]), ((0, 1), [1, 2]), ((2, 0), [1, 2]),
                         ((2, 1), [1, 2])],
      initial_board = [[0, 0, 3, 4], [3, 4, 1, 2], [0, 0, 4, 3], [4, 3, 2, 1]]\<rparr> reset) =
     \<lparr>nodes = 9, backtracks = 8, solutions = 2\<rparr> \<and>
   (40::nat) \<le> event_bound 4 4"
proof -
  let ?B = "[[0, 0, 3, 4], [3, 4, 1, 2], [0, 0, 4, 3], [4, 3, 2, 1::int]]"
  let ?E = "\<lparr>size' = 4, box_size = 2, variables = [(0, 0), (0, 1), (2, 0), (2, 1)],
             initial_domains = [((0, 0), [1, 2]), ((0, 1), [1, 2]), ((2, 0), [1, 2]),
                                ((2, 1), [1, 2])],
             initial_board = ?B\<rparr>"
  have h: "SudokuCSP_init 4 (Some ?B) = Inr (?E, reset)" by code_simp
  have len: "length (events (backtrack_generator ?E reset)) = 40" by code_simp
  have fin: "final (backtrack_generator ?E reset) = \<lparr>nodes = 9, backtracks = 8, solutions = 2\<rparr>"
    by code_simp
  from drain_is_finite [OF h]
  have e: "err (backtrack_generator ?E reset) = None"
    and b: "length (events (backtrack_generator ?E reset))
              \<le> event_bound (size' ?E) (length (variables ?E))"
    by blast+
  have sz: "size' ?E = 4" and lv: "length (variables ?E) = 4" by simp_all
  from b have "(40::nat) \<le> event_bound 4 4" unfolding sz lv len .
  with h e len fin show ?thesis by blast
qed

section \<open>Every solution event solves the board\<close>

text \<open>
  C3: for every well-formed board, every solution event of the drain with the default
  arguments carries an assignment that, merged with the board, gives a grid with as many
  rows and columns as the board in which every row, every column and every box is a
  permutation of 1 to the side of the board.
\<close>

theorem solution_events_solve_board:
  assumes "well_formed b" and "SudokuCSP_init (int (length b)) (Some b) = Inr (csp, st)"
    and "Solution s \<in> set (events (backtrack_generator csp st))"
  shows "box_size csp * box_size csp = length b \<and>
         length (merge b (length b) (map_of s)) = length b \<and>
         (\<forall>row \<in> set (merge b (length b) (map_of s)). length row = length b) \<and>
         solved (length b) (box_size csp) (merge b (length b) (map_of s))"
proof -
  from assms(3) have "map_of s \<in> set (found (backtrack_generator csp st))"
    by (simp add: found_def solution_in_sols)
  with built_found [OF assms(2), of st] have "total_valid csp (map_of s)" by simp
  from merged_solved [OF assms(1,2) this] merge_shape [of b "length b" "map_of s"]
    well_formedD(1) [OF assms(1)] built_on(2) [OF assms(2)]
  show ?thesis by simp
qed

theorem solution_events_solve_board_witness:
  "well_formed [[1, 2, 3, 4], [3, 4, 1, 2], [2, 1, 4, 3], [4, 3, 2, 0]] \<and>
   solved 4 2 (merge [[1, 2, 3, 4], [3, 4, 1, 2], [2, 1, 4, 3], [4, 3, 2, 0]] 4
                 (map_of [((3, 3), 1)]))"
proof -
  let ?B = "[[1, 2, 3, 4], [3, 4, 1, 2], [2, 1, 4, 3], [4, 3, 2, 0::int]]"
  let ?E = "\<lparr>size' = 4, box_size = 2, variables = [(3, 3)], initial_domains = [((3, 3), [1])],
             initial_board = ?B\<rparr>"
  have wf: "well_formed ?B" by code_simp
  have init: "SudokuCSP_init (int (length ?B)) (Some ?B) = Inr (?E, reset)" by code_simp
  have ev: "Solution [((3, 3), 1)] \<in> set (events (backtrack_generator ?E reset))" by code_simp
  have len: "length ?B = 4" and bs: "box_size ?E = 2" by simp_all
  from solution_events_solve_board [OF wf init ev]
  have "solved (length ?B) (box_size ?E) (merge ?B (length ?B) (map_of [((3, 3), 1)]))" by blast
  then have "solved 4 2 (merge ?B 4 (map_of [((3, 3), 1)]))" by (simp only: len bs)
  with wf show ?thesis by blast
qed

section \<open>Validation accepts exactly the boards with one completion\<close>

text \<open>
  C7: for every well-formed board, \<open>is_valid_puzzle\<close> raises nothing, returns True if and
  only if the board has exactly one completion, and returns False otherwise. The loop's
  verdict is False on every event sequence that starts with events holding two
  solutions, whatever follows them.
\<close>

theorem is_valid_puzzle_unique_completion:
  assumes "well_formed b"
  shows "(is_valid_puzzle b = Inr True) = (\<exists>!g. completion b g) \<and>
         (is_valid_puzzle b = Inr False) = (\<not> (\<exists>!g. completion b g)) \<and>
         (\<forall>es es'. 2 \<le> count_events is_solution es \<longrightarrow> consume (es @ es') 0 = Inl False)"
proof -
  from well_formed_init [OF assms] obtain csp st where
    init: "SudokuCSP_init (int (length b)) (Some b) = Inr (csp, st)" by blast
  from is_valid_puzzle_closed [OF init] unique_completion_iff [OF assms init]
  have "is_valid_puzzle b = Inr (\<exists>!g. completion b g)" by simp
  then show ?thesis using consume_short_circuit by auto
qed

theorem is_valid_puzzle_unique_completion_witness:
  "well_formed [[1, 2, 3, 4], [3, 4, 1, 2], [2, 1, 4, 3], [4, 3, 2, 0]] \<and>
   is_valid_puzzle [[1, 2, 3, 4], [3, 4, 1, 2], [2, 1, 4, 3], [4, 3, 2, 0]] = Inr True \<and>
   (\<exists>!g. completion [[1, 2, 3, 4], [3, 4, 1, 2], [2, 1, 4, 3], [4, 3, 2, 0]] g)"
proof -
  let ?B = "[[1, 2, 3, 4], [3, 4, 1, 2], [2, 1, 4, 3], [4, 3, 2, 0::int]]"
  have wf: "well_formed ?B" by code_simp
  have run: "is_valid_puzzle ?B = Inr True" by code_simp
  from is_valid_puzzle_unique_completion [OF wf] run have "\<exists>!g. completion ?B g" by blast
  with wf run show ?thesis by blast
qed

section \<open>Forward checking works on a copy\<close>

text \<open>
  C8: whenever \<open>forward_check\<close> returns, with the failure or with the success outcome,
  every object that existed before the call is what it was, so the caller's domain map
  reads as before. The dicts that the call returns, and the lists they refer to, are
  objects that the call allocated.
\<close>

theorem forward_check_leaves_domains:
  assumes "read_domains h domains = Inr doms"
    and "forward_check_h csp var v domains h = Inr (res, h')"
  shows "take (length h) h' = h \<and> read_domains h' domains = Inr doms \<and>
         length h \<le> snd res \<and> lists_from (length h) (snd res) h' \<and>
         (\<forall>r. fst res = Some r \<longrightarrow> length h \<le> r \<and> lists_from (length h) r h')"
  using forward_check_h_frame [OF assms(2)] frame_read_domains [OF _ assms(1)] by blast

theorem forward_check_leaves_domains_witness:
  "\<exists>res h'.
     forward_check_h \<lparr>size' = 4, box_size = 2, variables = [(0, 0), (0, 1), (3, 3)],
                       initial_domains = [], initial_board = []\<rparr> (0, 0) 1 3
       [IntList [1, 2], IntList [1, 2], IntList [1, 3],
        Dict [((0, 0), 0), ((0, 1), 1), ((3, 3), 2)]] = Inr (res, h') \<and>
     take (length [IntList [1, 2], IntList [1, 2], IntList [1, 3],
                   Dict [((0, 0), 0), ((0, 1), 1), ((3, 3), 2)]]) h' =
       [IntList [1, 2], IntList [1, 2], IntList [1, 3],
        Dict [((0, 0), 0), ((0, 1), 1), ((3, 3), 2)]] \<and>
     read_domains h' 3 = Inr [((0, 0), [1, 2]), ((0, 1), [1, 2]), ((3, 3), [1, 3])]"
proof -
  let ?E = "\<lparr>size' = 4, box_size = 2, variables = [(0, 0), (0, 1), (3, 3)],
             initial_domains = [], initial_board = []\<rparr>"
  let ?H = "[IntList [1, 2], IntList [1, 2], IntList [1, 3],
             Dict [((0, 0), 0), ((0, 1), 1), ((3, 3), 2)]]"
  let ?H' = "[IntList [1, 2], IntList [1, 2], IntList [1, 3],
       Dict [((0, 0), 0), ((0, 1), 1), ((3, 3), 2)], IntList [1, 2],
       IntList [2], IntList [1, 3],
       Dict [((0, 0), 12), ((0, 1), 5), ((3, 3), 6)], IntList [],
       IntList [1], IntList [],
       Dict [((0, 0), 8), ((0, 1), 9), ((3, 3), 10)], IntList [1]]"
  have run: "forward_check_h ?E (0, 0) 1 3 ?H = Inr ((Some 7, 11), ?H')" by code_simp
  have rd: "read_domains ?H 3 = Inr [((0, 0), [1, 2]), ((0, 1), [1, 2]), ((3, 3), [1, 3])]"
    by code_simp
  from forward_check_leaves_domains [OF rd run]
  have "take (length ?H) ?H' = ?H \<and>
        read_domains ?H' 3 = Inr [((0, 0), [1, 2]), ((0, 1), [1, 2]), ((3, 3), [1, 3])]"
    by blast
  with run show ?thesis by blast
qed

section \<open>The constructor copies the board\<close>

text \<open>
  C10: the caller passes a reference \<open>board\<close> to a grid whose value is \<open>B\<close>. Whenever the
  constructor returns, every object that existed before the call is what it was, so the
  caller's grid still reads \<open>B\<close>; the engine is the one that the constructor builds from
  the value \<open>B\<close>, and it reads the same in every later store that keeps the objects
  allocated by the call, whatever that store holds at the references of the caller's
  grid. The constructor returns whenever the construction from \<open>B\<close> succeeds. Likewise
  \<open>is_valid_puzzle\<close> leaves every object that existed before the call as it was, and
  answers what it answers on the value \<open>B\<close>.
\<close>

theorem constructor_copies_board:
  assumes "read_board h board = Inr B"
  shows "(\<forall>eng st h'. init_h sz (Some board) h = Inr (eng, st, h') \<longrightarrow>
            take (length h) h' = h \<and> read_board h' board = Inr B \<and>
            (\<exists>csp. SudokuCSP_init sz (Some B) = Inr (csp, st) \<and>
                   read_engine h' eng = Inr csp \<and>
                   (\<forall>h''. keeps {length h..} h' h'' \<longrightarrow> read_engine h'' eng = Inr csp))) \<and>
         (\<forall>csp st. SudokuCSP_init sz (Some B) = Inr (csp, st) \<longrightarrow>
            (\<exists>eng h'. init_h sz (Some board) h = Inr (eng, st, h'))) \<and>
         (\<forall>answer h'. is_valid_puzzle_h board h = Inr (answer, h') \<longrightarrow>
            take (length h) h' = h \<and> read_board h' board = Inr B \<and>
            is_valid_puzzle B = Inr answer) \<and>
         (\<forall>answer. is_valid_puzzle B = Inr answer \<longrightarrow>
            (\<exists>h'. is_valid_puzzle_h board h = Inr (answer, h')))"
proof (intro conjI allI impI)
  fix eng st h'
  assume run: "init_h sz (Some board) h = Inr (eng, st, h')"
  note R = init_h_refines [OF assms, of sz]
  from R run obtain res where res: "SudokuCSP_init sz (Some B) = Inr res"
    by (cases "SudokuCSP_init sz (Some B)") simp_all
  obtain csp st' where cs: "res = (csp, st')" by (cases res)
  from R res cs run have st: "st' = st" and re: "read_engine h' eng = Inr csp"
    and k: "keeps {..<length h} h h'" and ow: "owned (length h) eng h'" by auto
  from keeps_take [OF k] show "take (length h) h' = h" .
  from keeps_read_board [OF k assms] show "read_board h' board = Inr B" .
  from res cs st re owned_independent [OF ow re]
  show "\<exists>csp. SudokuCSP_init sz (Some B) = Inr (csp, st) \<and> read_engine h' eng = Inr csp \<and>
          (\<forall>h''. keeps {length h..} h' h'' \<longrightarrow> read_engine h'' eng = Inr csp)"
    by blast
next
  fix csp st
  assume "SudokuCSP_init sz (Some B) = Inr (csp, st)"
  with init_h_refines [OF assms, of sz]
  show "\<exists>eng h'. init_h sz (Some board) h = Inr (eng, st, h')" by auto
next
  fix answer h'
  assume run: "is_valid_puzzle_h board h = Inr (answer, h')"
  note R = is_valid_puzzle_h_refines [OF assms]
  from R run obtain a where a: "is_valid_puzzle B = Inr a"
    by (cases "is_valid_puzzle B") simp_all
  from R a run have eq: "a = answer" and k: "keeps {..<length h} h h'" by auto
  from keeps_take [OF k] show "take (length h) h' = h" .
  from keeps_read_board [OF k assms] show "read_board h' board = Inr B" .
  from a eq show "is_valid_puzzle B = Inr answer" by simp
next
  fix answer
  assume "is_valid_puzzle B = Inr answer"
  with is_valid_puzzle_h_refines [OF assms]
  show "\<exists>h'. is_valid_puzzle_h board h = Inr (answer, h')" by auto
qed

theorem constructor_copies_board_witness:
  "\<exists>eng h'.
     read_board [IntList [1, 2, 3, 4], IntList [3, 4, 1, 2], IntList [2, 1, 4, 3],
                 IntList [4, 3, 0, 0], Rows [0, 1, 2, 3]] 4
       = Inr [[1, 2, 3, 4], [3, 4, 1, 2], [2, 1, 4, 3], [4, 3, 0, 0]] \<and>
     init_h 4 (Some 4) [IntList [1, 2, 3, 4], IntList [3, 4, 1, 2], IntList [2, 1, 4, 3],
                        IntList [4, 3, 0, 0], Rows [0, 1, 2, 3]] = Inr (eng, reset, h') \<and>
     take 5 h' = [IntList [1, 2, 3, 4], IntList [3, 4, 1, 2], IntList [2, 1, 4, 3],
                  IntList [4, 3, 0, 0], Rows [0, 1, 2, 3]] \<and>
     read_board h' 4 = Inr [[1, 2, 3, 4], [3, 4, 1, 2], [2, 1, 4, 3], [4, 3, 0, 0]] \<and>
     read_engine (h'[3 := IntList [4, 3, 2, 1]]) eng = read_engine h' eng \<and>
     initial_domains (projr (read_engine h' eng)) = [((3, 2), [2]), ((3, 3), [1])] \<and>
     is_valid_puzzle_h 4 [IntList [1, 2, 3, 4], IntList [3, 4, 1, 2], IntList [2, 1, 4, 3],
                          IntList [4, 3, 0, 0], Rows [0, 1, 2, 3]] = Inr (True, h')"
proof -
  let ?H = "[IntList [1, 2, 3, 4], IntList [3, 4, 1, 2], IntList [2, 1, 4, 3],
             IntList [4, 3, 0, 0], Rows [0, 1, 2, 3]]"
  let ?B = "[[1, 2, 3, 4], [3, 4, 1, 2], [2, 1, 4, 3], [4, 3, 0, 0::int]]"
  let ?E = "\<lparr>size_h = 4, box_size_h = 2, variables_h = [(3, 2), (3, 3)],
             initial_domains_h = 5, initial_board_h = 10\<rparr>"
  let ?H' = "[IntList [1, 2, 3, 4], IntList [3, 4, 1, 2], IntList [2, 1, 4, 3],
       IntList [4, 3, 0, 0], Rows [0, 1, 2, 3],
       Dict [((3, 2), 11), ((3, 3), 12)], IntList [1, 2, 3, 4],
       IntList [3, 4, 1, 2], IntList [2, 1, 4, 3], IntList [4, 3, 0, 0],
       Rows [6, 7, 8, 9], IntList [2], IntList [1]]"
  let ?C = "\<lparr>size' = 4, box_size = 2, variables = [(3, 2), (3, 3)],
             initial_domains = [((3, 2), [2]), ((3, 3), [1])], initial_board = ?B\<rparr>"
  have rb: "read_board ?H 4 = Inr ?B" by code_simp
  have run: "init_h 4 (Some 4) ?H = Inr (?E, reset, ?H')" by code_simp
  have pure: "SudokuCSP_init 4 (Some ?B) = Inr (?C, reset)" by code_simp
  have v: "is_valid_puzzle_h 4 ?H = Inr (True, ?H')" by code_simp
  have k: "keeps {length ?H..} ?H' (?H'[3 := IntList [4, 3, 2, 1]])"
    by (simp add: keeps_def nth_Cons')
  note T = constructor_copies_board [OF rb, of 4]
  from T run have a: "take (length ?H) ?H' = ?H" "read_board ?H' 4 = Inr ?B"
    and "\<exists>csp. SudokuCSP_init 4 (Some ?B) = Inr (csp, reset) \<and> read_engine ?H' ?E = Inr csp \<and>
          (\<forall>h''. keeps {length ?H..} ?H' h'' \<longrightarrow> read_engine h'' ?E = Inr csp)"
    by blast+
  with pure have re: "read_engine ?H' ?E = Inr ?C"
    and ind: "\<forall>h''. keeps {length ?H..} ?H' h'' \<longrightarrow> read_engine h'' ?E = Inr ?C"
    by auto
  from ind k have re': "read_engine (?H'[3 := IntList [4, 3, 2, 1]]) ?E = Inr ?C" by blast
  from a(1) have t5: "take 5 ?H' = ?H" by simp
  have "read_board ?H 4 = Inr ?B \<and> init_h 4 (Some 4) ?H = Inr (?E, reset, ?H') \<and>
     take 5 ?H' = ?H \<and> read_board ?H' 4 = Inr ?B \<and>
     read_engine (?H'[3 := IntList [4, 3, 2, 1]]) ?E = read_engine ?H' ?E \<and>
     initial_domains (projr (read_engine ?H' ?E)) = [((3, 2), [2]), ((3, 3), [1])] \<and>
     is_valid_puzzle_h 4 ?H = Inr (True, ?H')"
    using rb run t5 a(2) re re' v by simp
  then show ?thesis by blast
qed

end
